theory Spec2Isabelle
  imports Main
begin

chapter \<open>The functions of tree-data-utils.js\<close>

section \<open>Tree data\<close>

text \<open>
  A node of \<^verbatim>\<open>tree-data-utils.js\<close> is a JavaScript object. The functions read two of
  its properties, \<^verbatim>\<open>children\<close> and \<^verbatim>\<open>expanded\<close>; every other property is carried
  along (\<^verbatim>\<open>{...node, children: ...}\<close>) and only ever inspected by the caller's own
  functions. A node is therefore the list of its other properties, its \<^verbatim>\<open>expanded\<close>
  property (\<open>None\<close> when it is not set) and its \<^verbatim>\<open>children\<close> property.

  \<^verbatim>\<open>children\<close> is absent (any falsy value behaves the same under \<^verbatim>\<open>!node.children\<close>), an
  array of nodes, or a function that produces the children lazily. For a function the
  code reads \<^verbatim>\<open>node.children.length\<close>, which in JavaScript is the number of parameters
  the function declares, and \<^verbatim>\<open>node.children[i]\<close>, which is \<^verbatim>\<open>undefined\<close>; so a lazy
  children value carries that number.
\<close>

datatype 'n children = NoChildren | Children "'n list" | LazyChildren nat

datatype 'p node =
  Node (props: "'p list") (expanded: "bool option") (children: "'p node children")

text \<open>The caller's key function \<^verbatim>\<open>getNodeKey({ node, treeIndex })\<close>.\<close>

type_synonym ('p, 'k) keyfn = "'p node \<Rightarrow> int \<Rightarrow> 'k"

text \<open>The record \<^verbatim>\<open>{ node, lowerSiblingCounts, path }\<close>, and the argument of the walk
  callback, which has \<^verbatim>\<open>treeIndex\<close> as well.\<close>

record ('p, 'k) node_info =
  node :: "'p node"
  lowerSiblingCounts :: "nat list"
  path :: "'k list"

record ('p, 'k) walk_info = "('p, 'k) node_info" +
  treeIndex :: int

text \<open>
  Exceptions. \<open>NoNodeFound\<close> and \<open>PathPastLeaf\<close> are the two \<^verbatim>\<open>throw new Error\<close> of
  \<^verbatim>\<open>changeNodeAtPath\<close>. \<open>TypeError\<close> is the exception JavaScript raises when a
  property of \<^verbatim>\<open>undefined\<close> or \<^verbatim>\<open>null\<close> is read, or when something that is not a
  function is called.
\<close>

datatype fault = TypeError | NoNodeFound | PathPastLeaf

section \<open>Indexed traversal\<close>

text \<open>The result object of \<^verbatim>\<open>getNodeDataAtTreeIndexOrNextIndex\<close>: either the record of
  the target node or \<^verbatim>\<open>{ nextIndex }\<close>.\<close>

datatype ('p, 'k) lookup = Found "('p, 'k) node_info" | NextIndex int

text \<open>
  \<^verbatim>\<open>getNodeDataAtTreeIndexOrNextIndex\<close> (source lines 5 to 55) and its \<^verbatim>\<open>for\<close> loop. The
  loop function receives the children from position \<open>i\<close> on, so \<^verbatim>\<open>childCount - i - 1\<close>
  is the length of the rest. The recursive call passes no \<^verbatim>\<open>ignoreCollapsed\<close> and no
  \<^verbatim>\<open>isPseudoRoot\<close>, so below the first node the defaults \<open>True\<close> and \<open>False\<close> apply.

  The function has no test for a function-valued \<^verbatim>\<open>children\<close>. On an expanded node
  whose \<^verbatim>\<open>children\<close> is a function declaring \<open>a\<close> parameters the loop runs \<open>a\<close> times on
  \<^verbatim>\<open>node.children[i]\<close>, which is \<^verbatim>\<open>undefined\<close>. With \<open>a = 0\<close> nothing happens. Otherwise
  the recursive call applies the key function to an undefined node and, unless the index
  is the target, reads \<^verbatim>\<open>node.children\<close> of \<^verbatim>\<open>undefined\<close>, a \<open>TypeError\<close>. The key function
  of the embedding is defined on nodes: it stands for a key function that reads its
  node, as \<^verbatim>\<open>({ node }) => node.id\<close> does, and raises the \<open>TypeError\<close> itself when the node
  is undefined. (A key function that ignores its node gets past that call; when the
  index of the undefined child is the target index, JavaScript then returns a record
  without a node and goes on with an undefined index, to end in \<^verbatim>\<open>null\<close> or in a
  \<open>TypeError\<close> later. Where a statement below evaluates the code on such a tree, the two
  indices differ, and the \<open>TypeError\<close> is raised whatever the key function does.)
\<close>

function getNodeDataAtTreeIndexOrNextIndex ::
    "('p, 'k) keyfn \<Rightarrow> int \<Rightarrow> bool \<Rightarrow> bool \<Rightarrow> 'p node \<Rightarrow> int \<Rightarrow> 'k list \<Rightarrow> nat list
      \<Rightarrow> fault + ('p, 'k) lookup"
  and getNodeData_children ::
    "('p, 'k) keyfn \<Rightarrow> int \<Rightarrow> 'p node list \<Rightarrow> int \<Rightarrow> 'k list \<Rightarrow> nat list
      \<Rightarrow> fault + ('p, 'k) lookup"
where
  "getNodeDataAtTreeIndexOrNextIndex getNodeKey targetIndex ignoreCollapsed isPseudoRoot
      nd currentIndex pth lsc =
    (let selfPath = (if \<not> isPseudoRoot then pth @ [getNodeKey nd currentIndex] else [])
     in if currentIndex = targetIndex
        then Inr (Found \<lparr>node = nd, lowerSiblingCounts = lsc, path = selfPath\<rparr>)
        else if children nd = NoChildren \<or> (ignoreCollapsed \<and> expanded nd \<noteq> Some True)
        then Inr (NextIndex (currentIndex + 1))
        else (case children nd of
            Children cs \<Rightarrow>
              getNodeData_children getNodeKey targetIndex cs (currentIndex + 1) selfPath lsc
          | LazyChildren a \<Rightarrow>
              (if a = 0 then Inr (NextIndex (currentIndex + 1)) else Inl TypeError)
          | NoChildren \<Rightarrow> Inr (NextIndex (currentIndex + 1))))"
| "getNodeData_children getNodeKey targetIndex [] childIndex selfPath lsc =
    Inr (NextIndex childIndex)"
| "getNodeData_children getNodeKey targetIndex (c # cs) childIndex selfPath lsc =
    (case getNodeDataAtTreeIndexOrNextIndex getNodeKey targetIndex True False
            c childIndex selfPath (lsc @ [length cs]) of
       Inl e \<Rightarrow> Inl e
     | Inr (Found r) \<Rightarrow> Inr (Found r)
     | Inr (NextIndex j) \<Rightarrow> getNodeData_children getNodeKey targetIndex cs j selfPath lsc)"
  by pat_completeness auto
termination
proof (relation "measure (\<lambda>x. case x of
        Inl (_, _, _, _, nd, _) \<Rightarrow> size nd
      | Inr (_, _, cs, _) \<Rightarrow> size_list size cs)")
  fix nd :: "'p node" and cs
  assume "children nd = Children cs"
  then have "size_list size cs < size nd" by (cases nd) simp
  then show "((Inr (getNodeKey, targetIndex, cs, currentIndex + 1, selfPath, lsc)),
      Inl (getNodeKey, targetIndex, ignoreCollapsed, isPseudoRoot, nd, currentIndex, pth, lsc))
    \<in> measure (\<lambda>x. case x of
        Inl (_, _, _, _, nd, _) \<Rightarrow> size nd
      | Inr (_, _, cs, _) \<Rightarrow> size_list size cs)"
    for getNodeKey :: "('p, 'k) keyfn" and targetIndex currentIndex :: int
      and selfPath pth :: "'k list" and lsc :: "nat list" and ignoreCollapsed isPseudoRoot :: bool
    by simp
qed auto

text \<open>
  \<^verbatim>\<open>walkDescendants\<close> (source lines 60 to 111) and its loop. The callback may keep
  state of its own (the callback of \<^verbatim>\<open>getVisibleNodeInfoFlattened\<close> fills an array), so
  it takes the state and returns it with its result; the walk compares that result with
  \<^verbatim>\<open>false\<close> only. The walk returns \<^verbatim>\<open>false\<close> or the index of the last node it visited.
  The recursive call passes \<^verbatim>\<open>ignoreCollapsed\<close> on, and no \<^verbatim>\<open>isPseudoRoot\<close>.
\<close>

datatype callback_result = ReturnedFalse | ReturnedOther

datatype walk_result = WalkFalse | WalkIndex int

type_synonym ('p, 'k, 's) callback = "('p, 'k) walk_info \<Rightarrow> 's \<Rightarrow> callback_result \<times> 's"

function walkDescendants ::
    "('p, 'k, 's) callback \<Rightarrow> ('p, 'k) keyfn \<Rightarrow> bool \<Rightarrow> bool \<Rightarrow> 'p node \<Rightarrow> int \<Rightarrow> 'k list
      \<Rightarrow> nat list \<Rightarrow> 's \<Rightarrow> walk_result \<times> 's"
  and walkDescendants_children ::
    "('p, 'k, 's) callback \<Rightarrow> ('p, 'k) keyfn \<Rightarrow> bool \<Rightarrow> 'p node list \<Rightarrow> int \<Rightarrow> 'k list
      \<Rightarrow> nat list \<Rightarrow> 's \<Rightarrow> walk_result \<times> 's"
where
  "walkDescendants callback getNodeKey ignoreCollapsed isPseudoRoot nd currentIndex pth lsc s =
    (let selfPath = (if \<not> isPseudoRoot then pth @ [getNodeKey nd currentIndex] else []);
         called = (if \<not> isPseudoRoot
                   then callback \<lparr>node = nd, lowerSiblingCounts = lsc, path = selfPath,
                                  treeIndex = currentIndex\<rparr> s
                   else (ReturnedOther, s))
     in if fst called = ReturnedFalse then (WalkFalse, snd called)
        else if children nd = NoChildren
                \<or> (expanded nd \<noteq> Some True \<and> ignoreCollapsed \<and> \<not> isPseudoRoot)
        then (WalkIndex currentIndex, snd called)
        else (case children nd of
            Children cs \<Rightarrow>
              walkDescendants_children callback getNodeKey ignoreCollapsed cs currentIndex
                selfPath lsc (snd called)
          | LazyChildren a \<Rightarrow> (WalkIndex currentIndex, snd called)
          | NoChildren \<Rightarrow> (WalkIndex currentIndex, snd called)))"
| "walkDescendants_children callback getNodeKey ignoreCollapsed [] childIndex selfPath lsc s =
    (WalkIndex childIndex, s)"
| "walkDescendants_children callback getNodeKey ignoreCollapsed (c # cs) childIndex selfPath lsc s =
    (case walkDescendants callback getNodeKey ignoreCollapsed False c (childIndex + 1)
            selfPath (lsc @ [length cs]) s of
       (WalkFalse, s') \<Rightarrow> (WalkFalse, s')
     | (WalkIndex j, s') \<Rightarrow>
         walkDescendants_children callback getNodeKey ignoreCollapsed cs j selfPath lsc s')"
  by pat_completeness auto
termination
proof (relation "measure (\<lambda>x. case x of
        Inl (_, _, _, _, nd, _) \<Rightarrow> size nd
      | Inr (_, _, _, cs, _) \<Rightarrow> size_list size cs)")
  fix nd :: "'p node" and cs
  assume "children nd = Children cs"
  then have "size_list size cs < size nd" by (cases nd) simp
  then show "((Inr (callback, getNodeKey, ignoreCollapsed, cs, currentIndex, selfPath, lsc, s1)),
      Inl (callback, getNodeKey, ignoreCollapsed, isPseudoRoot, nd, currentIndex, pth, lsc, s))
    \<in> measure (\<lambda>x. case x of
        Inl (_, _, _, _, nd, _) \<Rightarrow> size nd
      | Inr (_, _, _, cs, _) \<Rightarrow> size_list size cs)"
    for callback :: "('p, 'k, 's) callback" and getNodeKey :: "('p, 'k) keyfn"
      and currentIndex :: int and selfPath pth :: "'k list" and lsc :: "nat list"
      and ignoreCollapsed isPseudoRoot :: bool and s s1 :: 's
    by simp
qed auto

section \<open>The exported functions\<close>

text \<open>\<^verbatim>\<open>getVisibleNodeCount\<close> (source lines 120 to 130) and its inner \<^verbatim>\<open>traverse\<close>;
  \<^verbatim>\<open>reduce\<close> with an initial value is \<open>foldl\<close>.\<close>

fun getVisibleNodeCount_traverse :: "'p node \<Rightarrow> nat" where
  "getVisibleNodeCount_traverse (Node ps e ch) =
    (case ch of
       Children cs \<Rightarrow>
         (if e \<noteq> Some True then 1
          else 1 + foldl (\<lambda>total currentNode. total + getVisibleNodeCount_traverse currentNode) 0 cs)
     | NoChildren \<Rightarrow> 1
     | LazyChildren a \<Rightarrow> 1)"

definition getVisibleNodeCount :: "'p node list \<Rightarrow> nat" where
  "getVisibleNodeCount treeData =
    foldl (\<lambda>total currentNode. total + getVisibleNodeCount_traverse currentNode) 0 treeData"

text \<open>\<^verbatim>\<open>getVisibleNodeInfoAtIndex\<close> (source lines 145 to 169); \<open>None\<close> is \<^verbatim>\<open>null\<close>. The
  pseudo-root is the object \<^verbatim>\<open>{ children: treeData, expanded: true }\<close>, which has no
  other property.\<close>

definition getVisibleNodeInfoAtIndex ::
    "'p node list \<Rightarrow> int \<Rightarrow> ('p, 'k) keyfn \<Rightarrow> fault + ('p, 'k) node_info option" where
  "getVisibleNodeInfoAtIndex treeData targetIndex getNodeKey =
    (if treeData = [] then Inr None
     else case getNodeDataAtTreeIndexOrNextIndex getNodeKey targetIndex True True
                 (Node [] (Some True) (Children treeData)) (- 1) [] [] of
         Inl e \<Rightarrow> Inl e
       | Inr (Found r) \<Rightarrow> Inr (Some r)
       | Inr (NextIndex j) \<Rightarrow> Inr None)"

text \<open>\<^verbatim>\<open>walk\<close> (source lines 179 to 194); the first component is \<open>None\<close> where the
  function returns nothing. Its pseudo-root is \<^verbatim>\<open>{ children: treeData }\<close>.\<close>

definition walk ::
    "'p node list \<Rightarrow> ('p, 'k) keyfn \<Rightarrow> ('p, 'k, 's) callback \<Rightarrow> bool \<Rightarrow> 's
      \<Rightarrow> walk_result option \<times> 's" where
  "walk treeData getNodeKey callback ignoreCollapsed s =
    (if treeData = [] then (None, s)
     else case walkDescendants callback getNodeKey ignoreCollapsed True
                 (Node [] None (Children treeData)) (- 1) [] [] s of
         (r, s') \<Rightarrow> (Some r, s'))"

text \<open>
  A JavaScript array under \<^verbatim>\<open>a[i] = v\<close>: an element in range is overwritten, an index
  at or past the end extends the array, leaving holes (\<open>None\<close>) between, and a negative
  index sets a property that is no element.
\<close>

definition array_set :: "'a option list \<Rightarrow> int \<Rightarrow> 'a \<Rightarrow> 'a option list" where
  "array_set a i v =
    (if i < 0 then a
     else if nat i < length a then a[nat i := Some v]
     else a @ replicate (nat i - length a) None @ [Some v])"

text \<open>\<^verbatim>\<open>getVisibleNodeInfoFlattened\<close> (source lines 208 to 224) and the callback it
  passes to \<^verbatim>\<open>walk\<close>, which stores \<^verbatim>\<open>{ node, lowerSiblingCounts, path }\<close> at
  \<^verbatim>\<open>treeIndex\<close> and returns nothing, which is not \<^verbatim>\<open>false\<close>.\<close>

definition info_of :: "('p, 'k) walk_info \<Rightarrow> ('p, 'k) node_info" where
  "info_of info =
    \<lparr>node = node info, lowerSiblingCounts = lowerSiblingCounts info, path = path info\<rparr>"

definition flatten_callback :: "('p, 'k, ('p, 'k) node_info option list) callback" where
  "flatten_callback info flattened =
    (ReturnedOther, array_set flattened (treeIndex info) (info_of info))"

definition getVisibleNodeInfoFlattened ::
    "'p node list \<Rightarrow> ('p, 'k) keyfn \<Rightarrow> ('p, 'k) node_info option list" where
  "getVisibleNodeInfoFlattened treeData getNodeKey =
    (if treeData = [] then []
     else snd (walk treeData getNodeKey flatten_callback True []))"

section \<open>Path-addressed mutation\<close>

text \<open>
  What \<^verbatim>\<open>newNode\<close> is or returns, and what the inner \<^verbatim>\<open>traverse\<close> of
  \<^verbatim>\<open>changeNodeAtPath\<close> returns: a node object, \<^verbatim>\<open>null\<close> (\<^verbatim>\<open>removeNodeAtPath\<close> passes
  \<^verbatim>\<open>null\<close>; \<^verbatim>\<open>undefined\<close> behaves the same), or the string \<^verbatim>\<open>'RESULT_MISS'\<close>. The
  constant \<^verbatim>\<open>RESULT_MISS\<close> of the source is that same string, so one constructor stands
  for both, as one value does in JavaScript. Other values that \<^verbatim>\<open>newNode\<close> could be
  (numbers, booleans, other strings) are not part of the embedding.
\<close>

datatype 'p js_value = RESULT_MISS | Null | Object "'p node"

datatype 'p new_node =
  NewNodeFunction "'p node \<Rightarrow> int \<Rightarrow> 'p js_value" | NewNodeValue "'p js_value"

text \<open>\<^verbatim>\<open>path[pathIndex]\<close>: \<open>None\<close> is \<^verbatim>\<open>undefined\<close>, read outside the array.\<close>

definition js_index :: "'a list \<Rightarrow> int \<Rightarrow> 'a option" where
  "js_index xs i = (if 0 \<le> i \<and> i < int (length xs) then Some (xs ! nat i) else None)"

text \<open>
  The inner \<^verbatim>\<open>traverse\<close> of \<^verbatim>\<open>changeNodeAtPath\<close> (source lines 239 to 301) and its
  loop. The loop function receives the parent, \<^verbatim>\<open>node.children.slice(0, i)\<close>, and the
  children from position \<open>i\<close> on, whose tail is \<^verbatim>\<open>node.children.slice(i + 1)\<close>.

  A node on the path whose \<^verbatim>\<open>children\<close> is a function declaring \<open>a\<close> parameters: the
  loop runs \<open>a\<close> times on an undefined child, and each way through the body ends in a
  \<open>TypeError\<close> (\<^verbatim>\<open>.children\<close> of \<^verbatim>\<open>undefined\<close> is read, or \<^verbatim>\<open>.slice\<close> of the function
  is called).

  The index-skipping call has target \<open>- 1\<close> and a current index of at least \<open>0\<close>, so it
  never finds its target (lemma \<open>skip_never_found\<close>); were it to, \<^verbatim>\<open>.nextIndex\<close> would be
  \<^verbatim>\<open>undefined\<close>.
\<close>

function changeNodeAtPath_traverse ::
    "('p, 'k) keyfn \<Rightarrow> 'k list \<Rightarrow> 'p new_node \<Rightarrow> bool \<Rightarrow> bool \<Rightarrow> 'p node \<Rightarrow> int \<Rightarrow> int
      \<Rightarrow> fault + 'p js_value"
  and changeNodeAtPath_children ::
    "('p, 'k) keyfn \<Rightarrow> 'k list \<Rightarrow> 'p new_node \<Rightarrow> bool \<Rightarrow> 'p node \<Rightarrow> 'p node list
      \<Rightarrow> 'p node list \<Rightarrow> int \<Rightarrow> int \<Rightarrow> fault + 'p js_value"
where
  "changeNodeAtPath_traverse getNodeKey pth newNode ignoreCollapsed isPseudoRoot
      nd currentTreeIndex pathIndex =
    (if \<not> isPseudoRoot \<and> Some (getNodeKey nd currentTreeIndex) \<noteq> js_index pth pathIndex
     then Inr RESULT_MISS
     else if pathIndex \<ge> int (length pth) - 1
     then Inr (case newNode of
                 NewNodeFunction f \<Rightarrow> f nd currentTreeIndex
               | NewNodeValue v \<Rightarrow> v)
     else (case children nd of
         NoChildren \<Rightarrow> Inl PathPastLeaf
       | Children cs \<Rightarrow>
           changeNodeAtPath_children getNodeKey pth newNode ignoreCollapsed nd [] cs
             (currentTreeIndex + 1) pathIndex
       | LazyChildren a \<Rightarrow> (if a = 0 then Inr RESULT_MISS else Inl TypeError)))"
| "changeNodeAtPath_children getNodeKey pth newNode ignoreCollapsed nd earlier []
      nextTreeIndex pathIndex =
    Inr RESULT_MISS"
| "changeNodeAtPath_children getNodeKey pth newNode ignoreCollapsed nd earlier (c # later)
      nextTreeIndex pathIndex =
    (case changeNodeAtPath_traverse getNodeKey pth newNode ignoreCollapsed False
            c nextTreeIndex (pathIndex + 1) of
       Inl e \<Rightarrow> Inl e
     | Inr (Object r) \<Rightarrow>
         Inr (Object (Node (props nd) (expanded nd) (Children (earlier @ [r] @ later))))
     | Inr Null \<Rightarrow>
         Inr (Object (Node (props nd) (expanded nd) (Children (earlier @ later))))
     | Inr RESULT_MISS \<Rightarrow>
         (case getNodeDataAtTreeIndexOrNextIndex getNodeKey (- 1) ignoreCollapsed False
                 c nextTreeIndex [] [] of
            Inl e \<Rightarrow> Inl e
          | Inr (NextIndex j) \<Rightarrow>
              changeNodeAtPath_children getNodeKey pth newNode ignoreCollapsed nd
                (earlier @ [c]) later j pathIndex
          | Inr (Found r) \<Rightarrow> Inl TypeError))"
  by pat_completeness auto
termination
proof (relation "measure (\<lambda>x. case x of
        Inl (_, _, _, _, _, nd, _) \<Rightarrow> size nd
      | Inr (_, _, _, _, _, _, cs, _) \<Rightarrow> size_list size cs)")
  fix nd :: "'p node" and cs
  assume "children nd = Children cs"
  then have "size_list size cs < size nd" by (cases nd) simp
  then show "((Inr (getNodeKey, pth, newNode, ignoreCollapsed, nd, [], cs,
        currentTreeIndex + 1, pathIndex)),
      Inl (getNodeKey, pth, newNode, ignoreCollapsed, isPseudoRoot, nd, currentTreeIndex,
        pathIndex))
    \<in> measure (\<lambda>x. case x of
        Inl (_, _, _, _, _, nd, _) \<Rightarrow> size nd
      | Inr (_, _, _, _, _, _, cs, _) \<Rightarrow> size_list size cs)"
    for getNodeKey :: "('p, 'k) keyfn" and pth :: "'k list" and newNode :: "'p new_node"
      and currentTreeIndex pathIndex :: int and ignoreCollapsed isPseudoRoot :: bool
    by simp
qed auto

text \<open>\<^verbatim>\<open>changeNodeAtPath\<close> (source lines 237 to 316). It returns \<^verbatim>\<open>result.children\<close>,
  whatever that is: reading it from \<^verbatim>\<open>null\<close> is a \<open>TypeError\<close>, and \<open>NoChildren\<close> is
  \<^verbatim>\<open>undefined\<close>.\<close>

definition changeNodeAtPath ::
    "'p node list \<Rightarrow> 'k list \<Rightarrow> 'p new_node \<Rightarrow> ('p, 'k) keyfn \<Rightarrow> bool
      \<Rightarrow> fault + 'p node children" where
  "changeNodeAtPath treeData pth newNode getNodeKey ignoreCollapsed =
    (case changeNodeAtPath_traverse getNodeKey pth newNode ignoreCollapsed True
            (Node [] None (Children treeData)) (- 1) (- 1) of
       Inl e \<Rightarrow> Inl e
     | Inr RESULT_MISS \<Rightarrow> Inl NoNodeFound
     | Inr Null \<Rightarrow> Inl TypeError
     | Inr (Object r) \<Rightarrow> Inr (children r))"


chapter \<open>Notions of the specification\<close>

section \<open>The visiting order\<close>

text \<open>
  The records of the nodes in depth-first pre-order, as the specification describes the
  walk: a node at index \<open>i\<close>, then, when its \<^verbatim>\<open>children\<close> is an array and it is expanded
  (or collapsed nodes are not ignored), its children from index \<open>i + 1\<close> on, each with
  the count of the siblings after it appended to the lower sibling counts.
\<close>

fun preorder ::
    "('p, 'k) keyfn \<Rightarrow> bool \<Rightarrow> 'p node \<Rightarrow> int \<Rightarrow> 'k list \<Rightarrow> nat list \<Rightarrow> ('p, 'k) walk_info list"
  and preorder_children ::
    "('p, 'k) keyfn \<Rightarrow> bool \<Rightarrow> 'p node list \<Rightarrow> int \<Rightarrow> 'k list \<Rightarrow> nat list
      \<Rightarrow> ('p, 'k) walk_info list"
where
  "preorder getNodeKey ignoreCollapsed (Node ps e ch) i pth lsc =
     \<lparr>node = Node ps e ch, lowerSiblingCounts = lsc,
      path = pth @ [getNodeKey (Node ps e ch) i], treeIndex = i\<rparr>
     # (case ch of
          Children cs \<Rightarrow>
            (if e = Some True \<or> \<not> ignoreCollapsed
             then preorder_children getNodeKey ignoreCollapsed cs (i + 1)
                    (pth @ [getNodeKey (Node ps e ch) i]) lsc
             else [])
        | _ \<Rightarrow> [])"
| "preorder_children getNodeKey ignoreCollapsed [] i pth lsc = []"
| "preorder_children getNodeKey ignoreCollapsed (c # cs) i pth lsc =
     preorder getNodeKey ignoreCollapsed c i pth (lsc @ [length cs])
     @ preorder_children getNodeKey ignoreCollapsed cs
         (i + int (length (preorder getNodeKey ignoreCollapsed c i pth (lsc @ [length cs]))))
         pth lsc"

text \<open>A callback applied to a list of records in turn, up to and including the first one
  on which it returns \<^verbatim>\<open>false\<close>; the first component tells whether it did.\<close>

fun run_callback :: "('p, 'k, 's) callback \<Rightarrow> ('p, 'k) walk_info list \<Rightarrow> 's \<Rightarrow> bool \<times> 's" where
  "run_callback callback [] s = (False, s)"
| "run_callback callback (info # infos) s =
     (case callback info s of
        (ReturnedFalse, s') \<Rightarrow> (True, s')
      | (ReturnedOther, s') \<Rightarrow> run_callback callback infos s')"

definition walk_outcome :: "int \<Rightarrow> bool \<times> 's \<Rightarrow> walk_result \<times> 's" where
  "walk_outcome lastIndex r =
    (if fst r then (WalkFalse, snd r) else (WalkIndex lastIndex, snd r))"

section \<open>Callback invocations\<close>

text \<open>
  Callback invocations. \<open>recording callback\<close> behaves as \<open>callback\<close> and keeps, next to
  the callback's own state, the list of the records it was invoked on, each with what the
  callback returned. \<open>walk_calls\<close> is that list after a whole \<^verbatim>\<open>walk\<close>.
\<close>

definition recording ::
    "('p, 'k, 's) callback \<Rightarrow> ('p, 'k, 's \<times> (('p, 'k) walk_info \<times> callback_result) list) callback" where
  "recording callback info st =
    (case callback info (fst st) of (r, s') \<Rightarrow> (r, (s', snd st @ [(info, r)])))"

definition walk_calls ::
    "'p node list \<Rightarrow> ('p, 'k) keyfn \<Rightarrow> ('p, 'k, 's) callback \<Rightarrow> bool \<Rightarrow> 's
      \<Rightarrow> (('p, 'k) walk_info \<times> callback_result) list" where
  "walk_calls treeData getNodeKey callback ignoreCollapsed s =
    snd (snd (walk treeData getNodeKey (recording callback) ignoreCollapsed (s, [])))"

definition never_stop :: "('p, 'k, unit) callback" where
  "never_stop info s = (ReturnedOther, s)"

text \<open>The invocations a callback makes when it is applied to a list of records in
  turn and stops after the first \<^verbatim>\<open>false\<close>.\<close>

fun invocations ::
    "('p, 'k, 's) callback \<Rightarrow> ('p, 'k) walk_info list \<Rightarrow> 's
      \<Rightarrow> (('p, 'k) walk_info \<times> callback_result) list" where
  "invocations callback [] s = []"
| "invocations callback (info # infos) s =
    (case callback info s of
       (ReturnedFalse, s') \<Rightarrow> [(info, ReturnedFalse)]
     | (ReturnedOther, s') \<Rightarrow> (info, ReturnedOther) # invocations callback infos s')"

text \<open>A callback that returns \<^verbatim>\<open>false\<close> at one tree index.\<close>

definition stop_at :: "int \<Rightarrow> ('p, 'k, unit) callback" where
  "stop_at k info s = (if treeIndex info = k then ReturnedFalse else ReturnedOther, s)"

section \<open>Searching a list of records; nodes and records of a tree\<close>

text \<open>What a search for a target index returns on a list of records that are numbered
  from \<open>i\<close> on: the record at the target, or the index after the last record.\<close>

definition seek :: "int \<Rightarrow> int \<Rightarrow> ('p, 'k) walk_info list \<Rightarrow> ('p, 'k) lookup" where
  "seek targetIndex i infos =
    (if i \<le> targetIndex \<and> targetIndex < i + int (length infos)
     then Found (info_of (infos ! nat (targetIndex - i)))
     else NextIndex (i + int (length infos)))"

text \<open>No expanded node that the traversal reaches has a function with parameters as its
  \<^verbatim>\<open>children\<close>.\<close>

fun no_expanded_lazy :: "'p node \<Rightarrow> bool" where
  "no_expanded_lazy (Node ps e ch) =
    (case ch of
       NoChildren \<Rightarrow> True
     | LazyChildren a \<Rightarrow> e \<noteq> Some True \<or> a = 0
     | Children cs \<Rightarrow> e \<noteq> Some True \<or> (\<forall>c \<in> set cs. no_expanded_lazy c))"

text \<open>A node with \<^verbatim>\<open>expanded\<close> set to \<^verbatim>\<open>true\<close>, and the array of its children (empty when
  \<^verbatim>\<open>children\<close> is no array).\<close>

definition expand :: "'p node \<Rightarrow> 'p node" where
  "expand nd = Node (props nd) (Some True) (children nd)"

definition child_nodes :: "'p node \<Rightarrow> 'p node list" where
  "child_nodes nd = (case children nd of Children cs \<Rightarrow> cs | _ \<Rightarrow> [])"

text \<open>The nodes of a tree: a node and, through its array of children, all below it.\<close>

fun nodes_of :: "'p node \<Rightarrow> 'p node list" where
  "nodes_of (Node ps e ch) =
    Node ps e ch # (case ch of Children cs \<Rightarrow> concat (map nodes_of cs) | _ \<Rightarrow> [])"

definition all_nodes :: "'p node list \<Rightarrow> 'p node list" where
  "all_nodes treeData = concat (map nodes_of treeData)"

text \<open>A record as the traversals emit it for a real node of the tree: the node is one of
  the tree's, the key path and the lower sibling counts have the same positive length,
  and every key is the key function's value at a node of the tree and an index from \<open>0\<close>
  on.\<close>

definition real_record :: "('p, 'k) keyfn \<Rightarrow> 'p node list \<Rightarrow> ('p, 'k) node_info \<Rightarrow> bool" where
  "real_record getNodeKey treeData r \<longleftrightarrow>
     node r \<in> set (all_nodes treeData)
     \<and> path r \<noteq> []
     \<and> length (path r) = length (lowerSiblingCounts r)
     \<and> (\<forall>k \<in> set (path r). \<exists>n \<in> set (all_nodes treeData). \<exists>j \<ge> 0. k = getNodeKey n j)"

text \<open>Every key of a list is a key of one of the given nodes at an index from \<open>0\<close> on.\<close>

definition keys_of :: "('p, 'k) keyfn \<Rightarrow> 'p node list \<Rightarrow> 'k list \<Rightarrow> bool" where
  "keys_of gk ns ks \<longleftrightarrow> (\<forall>k \<in> set ks. \<exists>n \<in> set ns. \<exists>j \<ge> 0. k = gk n j)"

section \<open>Key paths\<close>

text \<open>
  Key paths, as section 4.5 of the specification describes the descent. The children of
  a node on the path are numbered from the node's index plus one, and each child that is
  passed over advances the index by what the index-skipping call consumes: the visible
  count of the child, taken as expanded when collapsed nodes are not ignored (the call
  passes \<^verbatim>\<open>ignoreCollapsed\<close> for the child itself only).
\<close>

definition skipped :: "bool \<Rightarrow> 'p node \<Rightarrow> nat" where
  "skipped ignoreCollapsed nd =
    (if ignoreCollapsed then getVisibleNodeCount_traverse nd
     else getVisibleNodeCount_traverse (expand nd))"



text \<open>The keys of a list of siblings, each at its index, and the requirement on the key
  function that they are different, on every level of the tree.\<close>

fun level_keys :: "('p, 'k) keyfn \<Rightarrow> bool \<Rightarrow> 'p node list \<Rightarrow> int \<Rightarrow> 'k list" where
  "level_keys getNodeKey ignoreCollapsed [] i = []"
| "level_keys getNodeKey ignoreCollapsed (c # cs) i =
     getNodeKey c i # level_keys getNodeKey ignoreCollapsed cs (i + int (skipped ignoreCollapsed c))"

function unique_sibling_keys :: "('p, 'k) keyfn \<Rightarrow> bool \<Rightarrow> 'p node list \<Rightarrow> int \<Rightarrow> bool" where
  "unique_sibling_keys getNodeKey ignoreCollapsed [] i = True"
| "unique_sibling_keys getNodeKey ignoreCollapsed (c # cs) i =
     (getNodeKey c i
        \<notin> set (level_keys getNodeKey ignoreCollapsed cs (i + int (skipped ignoreCollapsed c)))
      \<and> unique_sibling_keys getNodeKey ignoreCollapsed (child_nodes c) (i + 1)
      \<and> unique_sibling_keys getNodeKey ignoreCollapsed cs (i + int (skipped ignoreCollapsed c)))"
  by pat_completeness auto
termination
proof (relation "measure (\<lambda>(_, _, cs, _). size_list size cs)")
  show "((getNodeKey, ignoreCollapsed, child_nodes c, i + 1), getNodeKey, ignoreCollapsed, c # cs, i)
      \<in> measure (\<lambda>(_, _, cs, _). size_list size cs)"
    for getNodeKey :: "('p, 'k) keyfn" and ignoreCollapsed :: bool and c :: "'p node" and cs i
    by (cases c) (auto simp: child_nodes_def split: children.splits)
qed auto

text \<open>The node a key path leads to, with its index: at each level the first child whose
  key is the next key of the path (the only one, when sibling keys are different).\<close>

fun node_at_path ::
    "('p, 'k) keyfn \<Rightarrow> bool \<Rightarrow> 'p node list \<Rightarrow> int \<Rightarrow> 'k list \<Rightarrow> ('p node \<times> int) option" where
  "node_at_path getNodeKey ignoreCollapsed [] i pth = None"
| "node_at_path getNodeKey ignoreCollapsed (c # cs) i [] = None"
| "node_at_path getNodeKey ignoreCollapsed (c # cs) i (k # ks) =
     (if getNodeKey c i = k
      then (if ks = [] then Some (c, i)
            else node_at_path getNodeKey ignoreCollapsed (child_nodes c) (i + 1) ks)
      else node_at_path getNodeKey ignoreCollapsed cs (i + int (skipped ignoreCollapsed c)) (k # ks))"


text \<open>No node of the tree has a function that declares parameters as its \<^verbatim>\<open>children\<close>
  while it is expanded, or at all when collapsed nodes are not ignored. On such a tree
  the index-skipping call of \<^verbatim>\<open>changeNodeAtPath\<close> raises no \<open>TypeError\<close>.\<close>

definition function_children_safe :: "bool \<Rightarrow> 'p node list \<Rightarrow> bool" where
  "function_children_safe ignoreCollapsed treeData \<longleftrightarrow>
     list_all (\<lambda>n. case children n of
                   LazyChildren a \<Rightarrow> a = 0 \<or> (ignoreCollapsed \<and> expanded n \<noteq> Some True)
                 | _ \<Rightarrow> True)
       (all_nodes treeData)"

section \<open>Edits along a path\<close>



section \<open>Calls of the caller's functions\<close>










text \<open>The records that a search for a target index passes, the target's included, in a
  list of records numbered from \<open>i\<close> on.\<close>

definition visited_upto :: "int \<Rightarrow> int \<Rightarrow> 'a list \<Rightarrow> 'a list" where
  "visited_upto targetIndex i infos =
    (if i \<le> targetIndex then take (nat (targetIndex - i) + 1) infos else infos)"



text \<open>
  Calls of \<^verbatim>\<open>newNode\<close>, when it is a function, in the inner \<^verbatim>\<open>traverse\<close> of
  \<^verbatim>\<open>changeNodeAtPath\<close> and in its loop, in the order in which they are made: the pairs of
  the node and the tree index passed.
\<close>

function changeNodeAtPath_traverse_newNode_calls ::
    "('p, 'k) keyfn \<Rightarrow> 'k list \<Rightarrow> 'p new_node \<Rightarrow> bool \<Rightarrow> bool \<Rightarrow> 'p node \<Rightarrow> int \<Rightarrow> int
      \<Rightarrow> ('p node \<times> int) list"
  and changeNodeAtPath_children_newNode_calls ::
    "('p, 'k) keyfn \<Rightarrow> 'k list \<Rightarrow> 'p new_node \<Rightarrow> bool \<Rightarrow> 'p node \<Rightarrow> 'p node list
      \<Rightarrow> 'p node list \<Rightarrow> int \<Rightarrow> int \<Rightarrow> ('p node \<times> int) list"
where
  "changeNodeAtPath_traverse_newNode_calls getNodeKey pth newNode ignoreCollapsed isPseudoRoot
      nd currentTreeIndex pathIndex =
    (if \<not> isPseudoRoot \<and> Some (getNodeKey nd currentTreeIndex) \<noteq> js_index pth pathIndex
     then []
     else if pathIndex \<ge> int (length pth) - 1
     then (case newNode of
             NewNodeFunction f \<Rightarrow> [(nd, currentTreeIndex)]
           | NewNodeValue v \<Rightarrow> [])
     else (case children nd of
         NoChildren \<Rightarrow> []
       | Children cs \<Rightarrow>
           changeNodeAtPath_children_newNode_calls getNodeKey pth newNode ignoreCollapsed nd [] cs
             (currentTreeIndex + 1) pathIndex
       | LazyChildren a \<Rightarrow> []))"
| "changeNodeAtPath_children_newNode_calls getNodeKey pth newNode ignoreCollapsed nd earlier []
      nextTreeIndex pathIndex = []"
| "changeNodeAtPath_children_newNode_calls getNodeKey pth newNode ignoreCollapsed nd earlier
      (c # later) nextTreeIndex pathIndex =
    changeNodeAtPath_traverse_newNode_calls getNodeKey pth newNode ignoreCollapsed False
      c nextTreeIndex (pathIndex + 1)
    @ (case changeNodeAtPath_traverse getNodeKey pth newNode ignoreCollapsed False
              c nextTreeIndex (pathIndex + 1) of
         Inr RESULT_MISS \<Rightarrow>
           (case getNodeDataAtTreeIndexOrNextIndex getNodeKey (- 1) ignoreCollapsed False
                   c nextTreeIndex [] [] of
              Inr (NextIndex j) \<Rightarrow>
                changeNodeAtPath_children_newNode_calls getNodeKey pth newNode ignoreCollapsed nd
                  (earlier @ [c]) later j pathIndex
            | _ \<Rightarrow> [])
       | _ \<Rightarrow> [])"
  by pat_completeness auto
termination
proof (relation "measure (\<lambda>x. case x of
        Inl (_, _, _, _, _, nd, _) \<Rightarrow> size nd
      | Inr (_, _, _, _, _, _, cs, _) \<Rightarrow> size_list size cs)")
  fix nd :: "'p node" and cs
  assume "children nd = Children cs"
  then have "size_list size cs < size nd" by (cases nd) simp
  then show "((Inr (getNodeKey, pth, newNode, ignoreCollapsed, nd, [], cs,
        currentTreeIndex + 1, pathIndex)),
      Inl (getNodeKey, pth, newNode, ignoreCollapsed, isPseudoRoot, nd, currentTreeIndex,
        pathIndex))
    \<in> measure (\<lambda>x. case x of
        Inl (_, _, _, _, _, nd, _) \<Rightarrow> size nd
      | Inr (_, _, _, _, _, _, cs, _) \<Rightarrow> size_list size cs)"
    for getNodeKey :: "('p, 'k) keyfn" and pth :: "'k list" and newNode :: "'p new_node"
      and currentTreeIndex pathIndex :: int and ignoreCollapsed isPseudoRoot :: bool
    by simp
qed auto

definition changeNodeAtPath_newNode_calls ::
    "'p node list \<Rightarrow> 'k list \<Rightarrow> 'p new_node \<Rightarrow> ('p, 'k) keyfn \<Rightarrow> bool \<Rightarrow> ('p node \<times> int) list" where
  "changeNodeAtPath_newNode_calls treeData pth newNode getNodeKey ignoreCollapsed =
    changeNodeAtPath_traverse_newNode_calls getNodeKey pth newNode ignoreCollapsed True
      (Node [] None (Children treeData)) (- 1) (- 1)"

section \<open>Examples\<close>

text \<open>The tree of the specification's scenario,
  \<^verbatim>\<open>[{id:"a", expanded:true, children:[{id:"b"},{id:"c"}]}, {id:"d"}]\<close>, with the key
  function \<^verbatim>\<open>node.id\<close>. A node's only other property is its \<^verbatim>\<open>id\<close>.\<close>

definition leaf :: "string \<Rightarrow> string node" where
  "leaf k = Node [k] None NoChildren"

definition id_key :: "(string, string) keyfn" where
  "id_key nd i = concat (props nd)"

definition scenario_tree :: "string node list" where
  "scenario_tree =
    [Node [''a''] (Some True) (Children [leaf ''b'', leaf ''c'']), leaf ''d'']"

definition collapsed_a :: "string node" where
  "collapsed_a = Node [''a''] None (Children [leaf ''b'', leaf ''c''])"

text \<open>A tree whose first root is expanded and has a function of one parameter as its
  \<^verbatim>\<open>children\<close>, as in \<^verbatim>\<open>{id:"L", expanded:true, children: ({ done }) => ...}\<close>.\<close>

definition lazy_tree :: "string node list" where
  "lazy_tree = [Node [''L''] (Some True) (LazyChildren 1), leaf ''d'', leaf ''e'']"



chapter \<open>Properties\<close>

section \<open>The walk visits the pre-order\<close>

declare getNodeDataAtTreeIndexOrNextIndex.simps [simp del]
declare walkDescendants.simps [simp del]
declare changeNodeAtPath_traverse.simps [simp del]

lemma run_callback_append:
  "run_callback cb (xs @ ys) s =
     (case run_callback cb xs s of (True, s') \<Rightarrow> (True, s') | (False, s') \<Rightarrow> run_callback cb ys s')"
  by (induction xs arbitrary: s) (auto split: prod.splits callback_result.splits)

lemma walk_run:
  "\<not> pr \<Longrightarrow> walkDescendants cb gk ic pr nd ci pth lsc s =
     walk_outcome (ci + int (length (preorder gk ic nd ci pth lsc)) - 1)
       (run_callback cb (preorder gk ic nd ci pth lsc) s)"
  "walkDescendants_children cb gk ic cs childIndex selfPath lsc s =
     walk_outcome (childIndex + int (length (preorder_children gk ic cs (childIndex + 1) selfPath lsc)))
       (run_callback cb (preorder_children gk ic cs (childIndex + 1) selfPath lsc) s)"
proof (induction cb gk ic pr nd ci pth lsc s and cb gk ic cs childIndex selfPath lsc s
    rule: walkDescendants_walkDescendants_children.induct)
  case (1 cb gk ic pr nd ci pth lsc s)
  obtain ps e ch where nd: "nd = Node ps e ch" by (cases nd)
  define info where "info = \<lparr>node = nd, lowerSiblingCounts = lsc, path = pth @ [gk nd ci], treeIndex = ci\<rparr>"
  obtain r s1 where cb: "cb info s = (r, s1)" by fastforce
  show ?case
  proof (cases "r \<noteq> ReturnedFalse \<and> (\<exists>cs. ch = Children cs) \<and> (e = Some True \<or> \<not> ic)")
    case True
    then obtain cs where cs: "ch = Children cs" by blast
    have r: "r = ReturnedOther" using True by (cases r) auto
    have IH: "walkDescendants_children cb gk ic cs ci (pth @ [gk nd ci]) lsc s1 =
      walk_outcome (ci + int (length (preorder_children gk ic cs (ci + 1) (pth @ [gk nd ci]) lsc)))
       (run_callback cb (preorder_children gk ic cs (ci + 1) (pth @ [gk nd ci]) lsc) s1)"
      using "1.IH"[of "pth @ [gk nd ci]" "cb info s" cs] True cb nd cs "1.prems"
      by (auto simp: info_def)
    show ?thesis
      using True cb r IH "1.prems" unfolding nd info_def cs
      by (subst walkDescendants.simps) (auto simp: walk_outcome_def Let_def)
  next
    case False
    then show ?thesis
      using cb "1.prems" unfolding nd info_def
      by (subst walkDescendants.simps)
         (cases r; cases ch; auto simp: walk_outcome_def Let_def)
  qed
next
  case (2 callback getNodeKey ignoreCollapsed childIndex selfPath lsc s)
  then show ?case by (simp add: walk_outcome_def)
next
  case (3 callback getNodeKey ignoreCollapsed c cs childIndex selfPath lsc s)
  then show ?case
    by (auto simp: walk_outcome_def run_callback_append ac_simps
          split: prod.splits walk_result.splits if_splits)
qed

lemma foldl_add_sum:
  "foldl (\<lambda>total c. total + f c) a cs = a + sum_list (map f cs)"
  by (induction cs arbitrary: a) (auto simp: add.assoc)

lemma length_preorder:
  "length (preorder gk True nd i pth lsc) = getVisibleNodeCount_traverse nd"
  "length (preorder_children gk True cs i pth lsc) = sum_list (map getVisibleNodeCount_traverse cs)"
  by (induction gk True nd i pth lsc and gk True cs i pth lsc rule: preorder_preorder_children.induct)
     (auto simp: foldl_add_sum split: children.splits)

lemma treeIndex_preorder:
  "k < length (preorder gk ic nd i pth lsc) \<Longrightarrow> treeIndex (preorder gk ic nd i pth lsc ! k) = i + int k"
  "k < length (preorder_children gk ic cs i pth lsc) \<Longrightarrow> treeIndex (preorder_children gk ic cs i pth lsc ! k) = i + int k"
proof (induction gk ic nd i pth lsc and gk ic cs i pth lsc arbitrary: k and k rule: preorder_preorder_children.induct)
  case (1 getNodeKey ignoreCollapsed ps e ch i pth lsc)
  then show ?case
    by (cases k) (auto split: children.splits if_splits)
next
  case (2 getNodeKey ignoreCollapsed i pth lsc)
  then show ?case by simp
next
  case (3 getNodeKey ignoreCollapsed c cs i pth lsc)
  then show ?case
    by (auto simp: nth_append)
qed

lemma run_flatten_callback:
  "(\<And>k. k < length infos \<Longrightarrow> treeIndex (infos ! k) = int (length a) + int k) \<Longrightarrow>
   run_callback flatten_callback infos a = (False, a @ map (\<lambda>i. Some (info_of i)) infos)"
proof (induction infos arbitrary: a)
  case Nil
  then show ?case by simp
next
  case (Cons x xs)
  have x: "treeIndex x = int (length a)" using Cons.prems[of 0] by simp
  have step: "run_callback flatten_callback (x # xs) a
     = run_callback flatten_callback xs (a @ [Some (info_of x)])"
    by (simp add: flatten_callback_def x array_set_def)
  have "run_callback flatten_callback xs (a @ [Some (info_of x)])
     = (False, (a @ [Some (info_of x)]) @ map (\<lambda>i. Some (info_of i)) xs)"
  proof (rule Cons.IH)
    fix k assume "k < length xs"
    then show "treeIndex (xs ! k) = int (length (a @ [Some (info_of x)])) + int k"
      using Cons.prems[of "Suc k"] by simp
  qed
  then show ?case
    unfolding step by simp
qed

lemma walkDescendants_pseudo_root:
  "walkDescendants cb gk ic True (Node ps e (Children T)) ci pth lsc s =
     walkDescendants_children cb gk ic T ci [] lsc s"
  by (subst walkDescendants.simps) simp

lemma getVisibleNodeInfoFlattened_preorder:
  "getVisibleNodeInfoFlattened T gk = map (\<lambda>i. Some (info_of i)) (preorder_children gk True T 0 [] [])"
proof (cases "T = []")
  case True
  then show ?thesis by (simp add: getVisibleNodeInfoFlattened_def)
next
  case False
  have "run_callback flatten_callback (preorder_children gk True T 0 [] []) []
      = (False, [] @ map (\<lambda>i. Some (info_of i)) (preorder_children gk True T 0 [] []))"
    by (rule run_flatten_callback) (simp add: treeIndex_preorder)
  then show ?thesis
    using False
    by (simp add: getVisibleNodeInfoFlattened_def walk_def walkDescendants_pseudo_root
        walk_run walk_outcome_def split: prod.splits)
qed

lemma getVisibleNodeCount_sum:
  "getVisibleNodeCount T = sum_list (map getVisibleNodeCount_traverse T)"
  by (simp add: getVisibleNodeCount_def foldl_add_sum)

text \<open>
  Claim C4, visible-count consistency: for every tree and key function,
  \<^verbatim>\<open>getVisibleNodeCount\<close> of the tree is the length of the array that
  \<^verbatim>\<open>getVisibleNodeInfoFlattened\<close> returns.
\<close>

theorem visible_count_is_flattened_length:
  "getVisibleNodeCount treeData = length (getVisibleNodeInfoFlattened treeData getNodeKey)"
  by (simp add: getVisibleNodeCount_sum getVisibleNodeInfoFlattened_preorder length_preorder)

theorem visible_count_is_flattened_length_witness:
  "length (getVisibleNodeInfoFlattened scenario_tree id_key) = 4"
  using visible_count_is_flattened_length [of scenario_tree id_key]
  by (simp add: getVisibleNodeCount_def scenario_tree_def leaf_def)

section \<open>Early termination of the walk\<close>

lemma run_recording:
  "run_callback (recording cb) xs (s, l) =
     (fst (run_callback cb xs s), (snd (run_callback cb xs s), l @ invocations cb xs s))"
proof (induction xs arbitrary: s l)
  case Nil
  then show ?case by simp
next
  case (Cons x xs)
  obtain r s' where c: "cb x s = (r, s')" by fastforce
  show ?case using Cons c by (cases r) (simp_all add: recording_def)
qed

lemma invocations_prefix:
  "map fst (invocations cb xs s) = take (length (invocations cb xs s)) xs"
proof (induction xs arbitrary: s)
  case Nil
  then show ?case by simp
next
  case (Cons x xs)
  obtain r s' where c: "cb x s = (r, s')" by fastforce
  show ?case using Cons c by (cases r) simp_all
qed

lemma invocations_stop_last:
  "j < length (invocations cb xs s) \<Longrightarrow> snd (invocations cb xs s ! j) = ReturnedFalse
     \<Longrightarrow> Suc j = length (invocations cb xs s)"
proof (induction xs arbitrary: s j)
  case Nil
  then show ?case by simp
next
  case (Cons x xs)
  obtain r s' where c: "cb x s = (r, s')" by fastforce
  show ?case
  proof (cases r)
    case ReturnedFalse
    then show ?thesis using Cons.prems c by simp
  next
    case ReturnedOther
    show ?thesis
    proof (cases j)
      case 0
      then show ?thesis using Cons.prems c ReturnedOther by simp
    next
      case (Suc k)
      then show ?thesis using Cons.prems c ReturnedOther Cons.IH[of k s'] by simp
    qed
  qed
qed

lemma invocations_all:
  "\<forall>c \<in> set (invocations cb xs s). snd c \<noteq> ReturnedFalse \<Longrightarrow> map fst (invocations cb xs s) = xs"
proof (induction xs arbitrary: s)
  case Nil
  then show ?case by simp
next
  case (Cons x xs)
  obtain r s' where c: "cb x s = (r, s')" by fastforce
  show ?case using Cons c by (cases r) simp_all
qed

lemma invocations_stopped:
  "fst (run_callback cb xs s) \<longleftrightarrow> (\<exists>c \<in> set (invocations cb xs s). snd c = ReturnedFalse)"
proof (induction xs arbitrary: s)
  case Nil
  then show ?case by simp
next
  case (Cons x xs)
  obtain r s' where c: "cb x s = (r, s')" by fastforce
  show ?case using Cons.IH[of s'] c by (cases r) auto
qed

lemma invocations_never_stop: "map fst (invocations never_stop xs s) = xs"
  by (induction xs arbitrary: s) (auto simp: never_stop_def)

lemma walk_preorder:
  "T \<noteq> [] \<Longrightarrow> walk T gk cb ic s =
     (let r = run_callback cb (preorder_children gk ic T 0 [] []) s
      in (Some (if fst r then WalkFalse
                else WalkIndex (int (length (preorder_children gk ic T 0 [] [])) - 1)), snd r))"
  by (simp add: walk_def walkDescendants_pseudo_root walk_run walk_outcome_def Let_def)

lemma walk_calls_invocations:
  "walk_calls T gk cb ic s = invocations cb (preorder_children gk ic T 0 [] []) s"
proof (cases "T = []")
  case True
  then show ?thesis by (simp add: walk_calls_def walk_def)
next
  case False
  then show ?thesis by (simp add: walk_calls_def walk_preorder run_recording Let_def)
qed

lemma walk_recording:
  "walk T gk (recording cb) ic (s, l) =
     (fst (walk T gk cb ic s), (snd (walk T gk cb ic s), l @ walk_calls T gk cb ic s))"
proof (cases "T = []")
  case True
  then show ?thesis by (simp add: walk_calls_invocations walk_def)
next
  case False
  then show ?thesis by (simp add: walk_calls_invocations walk_preorder run_recording Let_def)
qed

text \<open>
  Claim C9, early termination: for every tree and every callback, the callback
  invocations of \<^verbatim>\<open>walk\<close> are a prefix of the pre-order that a walk with a callback
  that never returns \<^verbatim>\<open>false\<close> visits; an invocation that returns \<^verbatim>\<open>false\<close> is the last
  one, so no later node, sibling or descendant, is visited; without a \<^verbatim>\<open>false\<close> every
  node of the pre-order is visited; and the walk returns \<^verbatim>\<open>false\<close> exactly when the
  callback did.
\<close>

theorem walk_stops_at_first_false:
  "(let calls = walk_calls treeData getNodeKey callback ignoreCollapsed s;
        every = map fst (walk_calls treeData getNodeKey never_stop ignoreCollapsed ())
    in map fst calls = take (length calls) every
     \<and> (\<forall>j < length calls. snd (calls ! j) = ReturnedFalse \<longrightarrow> Suc j = length calls)
     \<and> ((\<forall>c \<in> set calls. snd c \<noteq> ReturnedFalse) \<longrightarrow> map fst calls = every)
     \<and> (fst (walk treeData getNodeKey callback ignoreCollapsed s) = Some WalkFalse
          \<longleftrightarrow> (\<exists>c \<in> set calls. snd c = ReturnedFalse)))"
proof -
  let ?order = "preorder_children getNodeKey ignoreCollapsed treeData 0 [] []"
  let ?calls = "invocations callback ?order s"
  have 1: "map fst ?calls = take (length ?calls) ?order"
    by (rule invocations_prefix)
  have 2: "\<forall>j < length ?calls. snd (?calls ! j) = ReturnedFalse \<longrightarrow> Suc j = length ?calls"
    by (intro allI impI) (rule invocations_stop_last)
  have 3: "(\<forall>c \<in> set ?calls. snd c \<noteq> ReturnedFalse) \<longrightarrow> map fst ?calls = ?order"
    by (intro impI) (rule invocations_all)
  have 4: "fst (walk treeData getNodeKey callback ignoreCollapsed s) = Some WalkFalse
          \<longleftrightarrow> (\<exists>c \<in> set ?calls. snd c = ReturnedFalse)"
  proof (cases "treeData = []")
    case True
    then show ?thesis by (simp add: walk_def)
  next
    case False
    then show ?thesis
      by (simp add: walk_preorder Let_def invocations_stopped)
  qed
  show ?thesis
    unfolding Let_def walk_calls_invocations invocations_never_stop
    by (intro conjI 1 2 3 4)
qed

theorem walk_stops_at_first_false_witness:
  "map (\<lambda>c. treeIndex (fst c)) (walk_calls scenario_tree id_key (stop_at 1) True ()) = [0, 1]
   \<and> map (\<lambda>c. treeIndex (fst c)) (walk_calls scenario_tree id_key never_stop True ()) = [0, 1, 2, 3]
   \<and> fst (walk scenario_tree id_key (stop_at 1) True ()) = Some WalkFalse"
proof -
  let ?calls = "walk_calls scenario_tree id_key (stop_at 1) True ()"
  have calls: "map (\<lambda>c. treeIndex (fst c)) ?calls = [0, 1]"
    by (simp add: walk_calls_invocations scenario_tree_def leaf_def id_key_def stop_at_def)
  have results: "map snd ?calls = [ReturnedOther, ReturnedFalse]"
    by (simp add: walk_calls_invocations scenario_tree_def leaf_def id_key_def stop_at_def)
  have every: "map (\<lambda>c. treeIndex (fst c)) (walk_calls scenario_tree id_key never_stop True ()) = [0, 1, 2, 3]"
    by (simp add: walk_calls_invocations scenario_tree_def leaf_def id_key_def never_stop_def)
  have "ReturnedFalse \<in> set (map snd ?calls)"
    unfolding results by simp
  then have stop: "\<exists>c \<in> set ?calls. snd c = ReturnedFalse"
    by force
  have "fst (walk scenario_tree id_key (stop_at 1) True ()) = Some WalkFalse
          \<longleftrightarrow> (\<exists>c \<in> set ?calls. snd c = ReturnedFalse)"
    using walk_stops_at_first_false [of scenario_tree id_key "stop_at 1" True "()"]
    unfolding Let_def by (elim conjE)
  with stop calls every show ?thesis by simp
qed

section \<open>The index-seeking traversal follows the pre-order\<close>

lemma seek_Nil [simp]: "seek t i [] = NextIndex i"
  by (simp add: seek_def)

lemma nat_index_shift: "i + int n \<le> t \<Longrightarrow> nat (t - i) - n = nat (t - (i + int n))"
  by arith

lemma seek_Cons:
  "seek t i (x # xs) = (if i = t then Found (info_of x) else seek t (i + 1) xs)"
  using nat_index_shift[of i 1 t] by (auto simp: seek_def nth_Cons')

lemma seek_append:
  "seek t i (xs @ ys) =
     (case seek t i xs of Found r \<Rightarrow> Found r | NextIndex j \<Rightarrow> seek t j ys)"
  using nat_index_shift[of i "length xs" t]
  by (auto simp: seek_def nth_append nat_less_iff add.assoc)

lemma getNodeData_seek:
  "ic \<Longrightarrow> \<not> pr \<Longrightarrow> getNodeDataAtTreeIndexOrNextIndex gk t ic pr nd ci pth lsc = Inr y
     \<Longrightarrow> y = seek t ci (preorder gk True nd ci pth lsc)"
  "getNodeData_children gk t cs ci selfPath lsc = Inr y
     \<Longrightarrow> y = seek t ci (preorder_children gk True cs ci selfPath lsc)"
proof (induction gk t ic pr nd ci pth lsc and gk t cs ci selfPath lsc arbitrary: y and y
    rule: getNodeDataAtTreeIndexOrNextIndex_getNodeData_children.induct)
  case (1 gk t ic pr nd ci pth lsc)
  obtain ps e ch where nd: "nd = Node ps e ch" by (cases nd)
  show ?case
  proof (cases "ci \<noteq> t \<and> (\<exists>cs. ch = Children cs) \<and> e = Some True")
    case True
    then obtain cs where cs: "ch = Children cs" by blast
    have "getNodeData_children gk t cs (ci + 1) (pth @ [gk nd ci]) lsc = Inr y"
      using "1.prems" True unfolding nd cs
      by (subst (asm) getNodeDataAtTreeIndexOrNextIndex.simps) (simp add: Let_def)
    then have "y = seek t (ci + 1) (preorder_children gk True cs (ci + 1) (pth @ [gk nd ci]) lsc)"
      using "1.IH"[of "pth @ [gk nd ci]" cs y] "1.prems" True nd cs by simp
    then show ?thesis
      using True by (simp add: nd cs seek_Cons)
  next
    case False
    then show ?thesis
      using "1.prems" unfolding nd
      by (subst (asm) getNodeDataAtTreeIndexOrNextIndex.simps)
         (cases ch; auto simp: Let_def seek_Cons info_of_def split: if_splits)
  qed
next
  case (2 gk t ci selfPath lsc)
  then show ?case by simp
next
  case (3 gk t c cs ci selfPath lsc)
  show ?case
  proof (cases "getNodeDataAtTreeIndexOrNextIndex gk t True False c ci selfPath (lsc @ [length cs])")
    case (Inl e)
    then show ?thesis using "3.prems" by simp
  next
    case (Inr x)
    then have x: "x = seek t ci (preorder gk True c ci selfPath (lsc @ [length cs]))"
      using "3.IH"(1) by simp
    show ?thesis
    proof (cases x)
      case (Found r)
      have sk: "seek t ci (preorder gk True c ci selfPath (lsc @ [length cs])) = Found r"
        using x Found by simp
      have "y = Found r" using "3.prems" Inr Found by simp
      then show ?thesis by (simp add: seek_append sk)
    next
      case (NextIndex j)
      then have j: "j = ci + int (length (preorder gk True c ci selfPath (lsc @ [length cs])))"
        using x by (simp add: seek_def split: if_splits)
      have "getNodeData_children gk t cs j selfPath lsc = Inr y"
        using "3.prems" Inr NextIndex by simp
      then have "y = seek t j (preorder_children gk True cs j selfPath lsc)"
        using "3.IH"(2)[OF Inr NextIndex] by simp
      moreover have "seek t ci (preorder gk True c ci selfPath (lsc @ [length cs])) = NextIndex j"
        using x NextIndex by simp
      ultimately show ?thesis
        using j by (simp add: seek_append)
    qed
  qed
qed

lemma getNodeData_no_fault:
  "ic \<Longrightarrow> no_expanded_lazy nd \<Longrightarrow> \<exists>y. getNodeDataAtTreeIndexOrNextIndex gk t ic pr nd ci pth lsc = Inr y"
  "\<forall>c \<in> set cs. no_expanded_lazy c \<Longrightarrow> \<exists>y. getNodeData_children gk t cs ci selfPath lsc = Inr y"
proof (induction gk t ic pr nd ci pth lsc and gk t cs ci selfPath lsc
    rule: getNodeDataAtTreeIndexOrNextIndex_getNodeData_children.induct)
  case (1 gk t ic pr nd ci pth lsc)
  obtain ps e ch where nd: "nd = Node ps e ch" by (cases nd)
  show ?case
  proof (cases "ci \<noteq> t \<and> (\<exists>cs. ch = Children cs) \<and> e = Some True")
    case True
    then obtain cs where cs: "ch = Children cs" by blast
    have "\<exists>y. getNodeData_children gk t cs (ci + 1) (if \<not> pr then pth @ [gk nd ci] else []) lsc = Inr y"
      using "1.IH"[of "if \<not> pr then pth @ [gk nd ci] else []" cs] "1.prems" True nd cs by simp
    then show ?thesis
      using True unfolding nd cs
      by (subst getNodeDataAtTreeIndexOrNextIndex.simps) (simp add: Let_def)
  next
    case False
    then show ?thesis
      using "1.prems" unfolding nd
      by (subst getNodeDataAtTreeIndexOrNextIndex.simps)
         (cases ch; auto simp: Let_def)
  qed
next
  case (2 gk t ci selfPath lsc)
  then show ?case by simp
next
  case (3 gk t c cs ci selfPath lsc)
  then obtain x where x: "getNodeDataAtTreeIndexOrNextIndex gk t True False c ci selfPath (lsc @ [length cs]) = Inr x"
    by auto
  show ?case
  proof (cases x)
    case (Found r)
    then show ?thesis using x by simp
  next
    case (NextIndex j)
    then show ?thesis using x "3.IH"(2)[OF x NextIndex] "3.prems" by simp
  qed
qed

section \<open>Collapsed nodes\<close>

lemma child_walk_calls:
  "length (walk_calls (child_nodes nd) gk never_stop True ())
     = sum_list (map getVisibleNodeCount_traverse (child_nodes nd))"
proof -
  have "length (walk_calls (child_nodes nd) gk never_stop True ())
      = length (map fst (invocations never_stop (preorder_children gk True (child_nodes nd) 0 [] []) ()))"
    by (simp add: walk_calls_invocations)
  then show ?thesis
    by (simp only: invocations_never_stop length_preorder)
qed

lemma count_expand:
  "getVisibleNodeCount_traverse (expand nd)
     = 1 + sum_list (map getVisibleNodeCount_traverse (child_nodes nd))"
  by (cases nd) (simp add: expand_def child_nodes_def foldl_add_sum split: children.splits)

lemma count_collapsed:
  "expanded nd \<noteq> Some True \<Longrightarrow> getVisibleNodeCount_traverse nd = 1"
  by (cases nd) (simp split: children.splits)

lemma getNodeData_collapsed:
  "expanded nd \<noteq> Some True \<Longrightarrow> targetIndex \<noteq> currentIndex \<Longrightarrow>
     getNodeDataAtTreeIndexOrNextIndex gk targetIndex True pr nd currentIndex pth lsc
       = Inr (NextIndex (currentIndex + 1))"
  by (subst getNodeDataAtTreeIndexOrNextIndex.simps) (simp add: Let_def)

lemma walk_collapsed:
  "expanded nd \<noteq> Some True \<Longrightarrow>
     walkDescendants cb gk True False nd currentIndex pth lsc s =
       (case cb \<lparr>node = nd, lowerSiblingCounts = lsc, path = pth @ [gk nd currentIndex],
                  treeIndex = currentIndex\<rparr> s of
          (ReturnedFalse, s') \<Rightarrow> (WalkFalse, s')
        | (ReturnedOther, s') \<Rightarrow> (WalkIndex currentIndex, s'))"
  by (subst walkDescendants.simps)
     (auto simp add: Let_def split: prod.splits callback_result.splits)

text \<open>
  Claim C5, collapse skip: a node whose \<^verbatim>\<open>expanded\<close> is not \<^verbatim>\<open>true\<close> counts as one
  visible node, whatever is below it; the index-seeking traversal that does not stop at it
  reports the next index, and the walk invokes the callback on it alone and returns its
  own index, so either way one index is consumed. Setting its \<^verbatim>\<open>expanded\<close> to \<^verbatim>\<open>true\<close>
  raises its count, and the count of a tree that has it as a root, by the number of its
  visible descendants: the nodes that a collapse-aware walk over its children visits.
\<close>

theorem collapsed_node_consumes_one_index:
  assumes "expanded nd \<noteq> Some True"
  shows "getVisibleNodeCount_traverse nd = 1
    \<and> (targetIndex \<noteq> currentIndex \<longrightarrow>
         getNodeDataAtTreeIndexOrNextIndex getNodeKey targetIndex True False nd currentIndex pth lsc
           = Inr (NextIndex (currentIndex + 1)))
    \<and> walkDescendants callback getNodeKey True False nd currentIndex pth lsc s =
         (case callback \<lparr>node = nd, lowerSiblingCounts = lsc,
                          path = pth @ [getNodeKey nd currentIndex], treeIndex = currentIndex\<rparr> s of
            (ReturnedFalse, s') \<Rightarrow> (WalkFalse, s')
          | (ReturnedOther, s') \<Rightarrow> (WalkIndex currentIndex, s'))
    \<and> getVisibleNodeCount_traverse (expand nd)
         = getVisibleNodeCount_traverse nd
           + length (walk_calls (child_nodes nd) getNodeKey never_stop True ())
    \<and> getVisibleNodeCount (earlier @ [expand nd] @ later)
         = getVisibleNodeCount (earlier @ [nd] @ later)
           + length (walk_calls (child_nodes nd) getNodeKey never_stop True ())"
proof (intro conjI impI)
  show "getVisibleNodeCount_traverse nd = 1"
    using assms by (rule count_collapsed)
  show "getNodeDataAtTreeIndexOrNextIndex getNodeKey targetIndex True False nd currentIndex pth lsc
           = Inr (NextIndex (currentIndex + 1))" if "targetIndex \<noteq> currentIndex"
    using assms that by (rule getNodeData_collapsed)
  show "walkDescendants callback getNodeKey True False nd currentIndex pth lsc s =
         (case callback \<lparr>node = nd, lowerSiblingCounts = lsc,
                          path = pth @ [getNodeKey nd currentIndex], treeIndex = currentIndex\<rparr> s of
            (ReturnedFalse, s') \<Rightarrow> (WalkFalse, s')
          | (ReturnedOther, s') \<Rightarrow> (WalkIndex currentIndex, s'))"
    using assms by (rule walk_collapsed)
  show node: "getVisibleNodeCount_traverse (expand nd)
         = getVisibleNodeCount_traverse nd
           + length (walk_calls (child_nodes nd) getNodeKey never_stop True ())"
    using assms by (simp add: count_expand count_collapsed child_walk_calls)
  show "getVisibleNodeCount (earlier @ [expand nd] @ later)
         = getVisibleNodeCount (earlier @ [nd] @ later)
           + length (walk_calls (child_nodes nd) getNodeKey never_stop True ())"
    by (simp add: getVisibleNodeCount_sum node)
qed

theorem collapsed_node_consumes_one_index_witness:
  "getVisibleNodeCount [collapsed_a, leaf ''d''] = 2
   \<and> getVisibleNodeCount [expand collapsed_a, leaf ''d''] = 4
   \<and> getNodeDataAtTreeIndexOrNextIndex id_key 1 True False collapsed_a 0 [] [1]
       = Inr (NextIndex 1)"
proof -
  have collapsed: "expanded collapsed_a \<noteq> Some True"
    by (simp add: collapsed_a_def)
  have calls: "length (walk_calls (child_nodes collapsed_a) id_key never_stop True ()) = 2"
    by (simp add: walk_calls_invocations child_nodes_def collapsed_a_def leaf_def never_stop_def)
  have before: "getVisibleNodeCount ([] @ [collapsed_a] @ [leaf ''d'']) = 2"
    by (simp add: getVisibleNodeCount_def collapsed_a_def leaf_def)
  show ?thesis
    using collapsed_node_consumes_one_index [OF collapsed,
        where targetIndex = 1 and currentIndex = 0 and getNodeKey = id_key and pth = "[]"
          and lsc = "[1]" and earlier = "[]" and later = "[leaf ''d'']"
          and callback = never_stop and s = "()"]
      calls before
    by simp
qed

section \<open>Records of real nodes\<close>

lemma nodes_of_self: "nd \<in> set (nodes_of nd)"
  by (cases nd) simp

lemma size_nodes_of: "n \<in> set (nodes_of nd) \<Longrightarrow> size n \<le> size nd"
proof (induction nd arbitrary: n rule: nodes_of.induct)
  case (1 ps e ch)
  show ?case
  proof (cases "n = Node ps e ch")
    case True
    then show ?thesis by simp
  next
    case False
    then obtain cs c where cs: "ch = Children cs" and c: "c \<in> set cs" and n: "n \<in> set (nodes_of c)"
      using "1.prems" by (auto split: children.splits)
    have "size n \<le> size c" using "1.IH"[OF cs c n] .
    moreover have "size c \<le> size_list size cs" using c by (simp add: size_list_estimation')
    ultimately show ?thesis using cs by simp
  qed
qed

lemma pseudo_root_not_in_tree:
  "n \<in> set (all_nodes T) \<Longrightarrow> n \<noteq> Node ps e (Children T)"
proof
  assume n: "n \<in> set (all_nodes T)" and eq: "n = Node ps e (Children T)"
  from n obtain c where c: "c \<in> set T" and nc: "n \<in> set (nodes_of c)"
    by (auto simp: all_nodes_def)
  have "size n \<le> size c" using nc by (rule size_nodes_of)
  also have "size c \<le> size_list size T" using c by (simp add: size_list_estimation')
  also have "\<dots> < size (Node ps e (Children T))" by simp
  finally show False using eq by simp
qed

lemma keys_of_mono: "keys_of gk ns ks \<Longrightarrow> set ns \<subseteq> set ms \<Longrightarrow> keys_of gk ms ks"
  unfolding keys_of_def by blast

lemma keys_of_Cons: "keys_of gk ns (k # ks) \<longleftrightarrow> (\<exists>n \<in> set ns. \<exists>j \<ge> 0. k = gk n j) \<and> keys_of gk ns ks"
  unfolding keys_of_def by simp

lemma preorder_records:
  "info \<in> set (preorder gk ic nd i pth lsc) \<Longrightarrow> 0 \<le> i \<Longrightarrow>
     node info \<in> set (nodes_of nd) \<and>
     (\<exists>ks ls. path info = pth @ ks \<and> lowerSiblingCounts info = lsc @ ls
        \<and> length ks = Suc (length ls) \<and> keys_of gk (nodes_of nd) ks)"
  "info \<in> set (preorder_children gk ic cs i pth lsc) \<Longrightarrow> 0 \<le> i \<Longrightarrow>
     node info \<in> set (concat (map nodes_of cs)) \<and>
     (\<exists>ks ls. path info = pth @ ks \<and> lowerSiblingCounts info = lsc @ ls
        \<and> length ks = length ls \<and> ks \<noteq> [] \<and> keys_of gk (concat (map nodes_of cs)) ks)"
proof (induction gk ic nd i pth lsc and gk ic cs i pth lsc arbitrary: info and info
    rule: preorder_preorder_children.induct)
  case (1 gk ic ps e ch i pth lsc)
  let ?nd = "Node ps e ch"
  let ?own = "\<lparr>node = ?nd, lowerSiblingCounts = lsc, path = pth @ [gk ?nd i], treeIndex = i\<rparr>"
  have self: "\<exists>n \<in> set (nodes_of ?nd). \<exists>j \<ge> 0. gk ?nd i = gk n j"
    using "1.prems"(2) by (intro bexI[of _ ?nd] exI[of _ i]) simp_all
  show ?case
  proof (cases "info = ?own")
    case True
    have "keys_of gk (nodes_of ?nd) [gk ?nd i]"
      using self by (simp add: keys_of_Cons keys_of_def)
    then show ?thesis
      using True by simp
  next
    case False
    then obtain cs where cs: "ch = Children cs" and opn: "e = Some True \<or> \<not> ic"
      and mem: "info \<in> set (preorder_children gk ic cs (i + 1) (pth @ [gk ?nd i]) lsc)"
      using "1.prems"(1) by (auto split: children.splits if_splits)
    have "0 \<le> i + 1" using "1.prems"(2) by simp
    from "1.IH"[OF cs opn mem this]
    obtain ks ls where n: "node info \<in> set (concat (map nodes_of cs))"
      and p: "path info = (pth @ [gk ?nd i]) @ ks" and l: "lowerSiblingCounts info = lsc @ ls"
      and len: "length ks = length ls" and k: "keys_of gk (concat (map nodes_of cs)) ks"
      by blast
    have sub: "set (concat (map nodes_of cs)) \<subseteq> set (nodes_of ?nd)"
      using cs by auto
    have "keys_of gk (nodes_of ?nd) (gk ?nd i # ks)"
      using keys_of_mono[OF k sub] self by (simp add: keys_of_Cons)
    moreover have "path info = pth @ (gk ?nd i # ks)" using p by simp
    moreover have "length (gk ?nd i # ks) = Suc (length ls)" using len by simp
    moreover have "node info \<in> set (nodes_of ?nd)" using n sub by blast
    ultimately show ?thesis using l by blast
  qed
next
  case (2 gk ic i pth lsc)
  then show ?case by simp
next
  case (3 gk ic c cs i pth lsc)
  let ?first = "preorder gk ic c i pth (lsc @ [length cs])"
  show ?case
  proof (cases "info \<in> set ?first")
    case True
    from "3.IH"(1)[OF True "3.prems"(2)]
    obtain ks ls where n: "node info \<in> set (nodes_of c)"
      and p: "path info = pth @ ks" and l: "lowerSiblingCounts info = (lsc @ [length cs]) @ ls"
      and len: "length ks = Suc (length ls)" and k: "keys_of gk (nodes_of c) ks"
      by blast
    have "keys_of gk (concat (map nodes_of (c # cs))) ks"
      by (rule keys_of_mono[OF k]) simp
    moreover have "lowerSiblingCounts info = lsc @ (length cs # ls)" using l by simp
    moreover have "length ks = length (length cs # ls)" using len by simp
    moreover have "ks \<noteq> []" using len by auto
    moreover have "node info \<in> set (concat (map nodes_of (c # cs)))" using n by simp
    ultimately show ?thesis using p by blast
  next
    case False
    then have mem: "info \<in> set (preorder_children gk ic cs (i + int (length ?first)) pth lsc)"
      using "3.prems"(1) by simp
    have "0 \<le> i + int (length ?first)" using "3.prems"(2) by simp
    from "3.IH"(3)[OF mem this]
    obtain ks ls where n: "node info \<in> set (concat (map nodes_of cs))"
      and p: "path info = pth @ ks" and l: "lowerSiblingCounts info = lsc @ ls"
      and len: "length ks = length ls" and ne: "ks \<noteq> []"
      and k: "keys_of gk (concat (map nodes_of cs)) ks"
      by blast
    have "keys_of gk (concat (map nodes_of (c # cs))) ks"
      by (rule keys_of_mono[OF k]) auto
    moreover have "node info \<in> set (concat (map nodes_of (c # cs)))" using n by simp
    ultimately show ?thesis using p l len ne by blast
  qed
qed

lemma preorder_real_record:
  assumes "info \<in> set (preorder_children gk ic T 0 [] [])"
  shows "real_record gk T (info_of info)"
proof -
  from preorder_records(2)[OF assms]
  obtain ks ls where "node info \<in> set (concat (map nodes_of T))"
    "path info = ks" "lowerSiblingCounts info = ls" "length ks = length ls" "ks \<noteq> []"
    "keys_of gk (concat (map nodes_of T)) ks"
    by auto
  then show ?thesis
    by (simp add: real_record_def info_of_def all_nodes_def keys_of_def)
qed

section \<open>Index resolution\<close>

lemma getNodeData_pseudo_root:
  "t \<noteq> ci \<Longrightarrow>
     getNodeDataAtTreeIndexOrNextIndex gk t ic True (Node ps (Some True) (Children T)) ci pth lsc
       = getNodeData_children gk t T (ci + 1) [] lsc"
  by (subst getNodeDataAtTreeIndexOrNextIndex.simps) simp

lemma getVisibleNodeInfoAtIndex_seek:
  assumes "t \<noteq> - 1" and "getVisibleNodeInfoAtIndex T t gk = Inr r"
  shows "r = (case seek t 0 (preorder_children gk True T 0 [] []) of
                Found x \<Rightarrow> Some x | NextIndex j \<Rightarrow> None)"
proof (cases "T = []")
  case True
  then show ?thesis using assms by (simp add: getVisibleNodeInfoAtIndex_def)
next
  case False
  show ?thesis
  proof (cases "getNodeData_children gk t T 0 [] []")
    case (Inl e)
    then show ?thesis
      using assms False by (simp add: getVisibleNodeInfoAtIndex_def getNodeData_pseudo_root)
  next
    case (Inr y)
    then have "y = seek t 0 (preorder_children gk True T 0 [] [])"
      by (rule getNodeData_seek(2))
    then have sk: "seek t 0 (preorder_children gk True T 0 [] []) = y"
      by simp
    show ?thesis
      unfolding sk using assms False Inr
      by (cases y) (auto simp: getVisibleNodeInfoAtIndex_def getNodeData_pseudo_root)
  qed
qed

lemma found_in_preorder:
  assumes "t \<noteq> - 1" and "getVisibleNodeInfoAtIndex T t gk = Inr (Some r)"
  shows "\<exists>info \<in> set (preorder_children gk True T 0 [] []). r = info_of info"
proof -
  let ?order = "preorder_children gk True T 0 [] []"
  have "Some r = (case seek t 0 ?order of Found x \<Rightarrow> Some x | NextIndex j \<Rightarrow> None)"
    using getVisibleNodeInfoAtIndex_seek[OF assms] .
  then have "0 \<le> t \<and> t < int (length ?order) \<and> r = info_of (?order ! nat t)"
    by (auto simp: seek_def split: if_splits)
  then show ?thesis
    by (intro bexI[of _ "?order ! nat t"]) auto
qed

text \<open>
  Claim C7, pseudo-root exclusion, as amended: for every tree and every target index
  other than \<open>- 1\<close>, a record that \<^verbatim>\<open>getVisibleNodeInfoAtIndex\<close> returns is the record of a
  node of the tree, not of the pseudo-root; its key path has the length of its lower
  sibling counts and consists of keys of nodes of the tree at indices from \<open>0\<close> on; and
  the same holds of every record the walk callback is invoked on.
\<close>

theorem pseudo_root_never_emitted:
  assumes "targetIndex \<noteq> - 1"
  shows "(\<forall>r. getVisibleNodeInfoAtIndex treeData targetIndex getNodeKey = Inr (Some r) \<longrightarrow>
            real_record getNodeKey treeData r
            \<and> node r \<noteq> Node [] (Some True) (Children treeData))
    \<and> (\<forall>c \<in> set (walk_calls treeData getNodeKey callback ignoreCollapsed s).
            real_record getNodeKey treeData (info_of (fst c))
            \<and> node (fst c) \<noteq> Node [] None (Children treeData))"
proof (intro conjI allI impI ballI)
  fix r
  assume "getVisibleNodeInfoAtIndex treeData targetIndex getNodeKey = Inr (Some r)"
  from found_in_preorder[OF assms this]
  show real: "real_record getNodeKey treeData r"
    using preorder_real_record by blast
  then have "node r \<in> set (all_nodes treeData)"
    by (simp add: real_record_def)
  then show "node r \<noteq> Node [] (Some True) (Children treeData)"
    by (rule pseudo_root_not_in_tree)
next
  fix c
  assume "c \<in> set (walk_calls treeData getNodeKey callback ignoreCollapsed s)"
  then have "fst c \<in> set (map fst (invocations callback
      (preorder_children getNodeKey ignoreCollapsed treeData 0 [] []) s))"
    by (simp add: walk_calls_invocations)
  then have "fst c \<in> set (preorder_children getNodeKey ignoreCollapsed treeData 0 [] [])"
    unfolding invocations_prefix by (rule in_set_takeD)
  then show real: "real_record getNodeKey treeData (info_of (fst c))"
    by (rule preorder_real_record)
  then have "node (info_of (fst c)) \<in> set (all_nodes treeData)"
    by (simp add: real_record_def)
  then have "node (fst c) \<in> set (all_nodes treeData)"
    by (simp add: info_of_def)
  then show "node (fst c) \<noteq> Node [] None (Children treeData)"
    by (rule pseudo_root_not_in_tree)
qed

theorem pseudo_root_never_emitted_witness:
  "getVisibleNodeInfoAtIndex scenario_tree 2 id_key
     = Inr (Some \<lparr>node = leaf ''c'', lowerSiblingCounts = [1, 0], path = [''a'', ''c'']\<rparr>)
   \<and> real_record id_key scenario_tree
        \<lparr>node = leaf ''c'', lowerSiblingCounts = [1, 0], path = [''a'', ''c'']\<rparr>
   \<and> leaf ''c'' \<noteq> Node [] (Some True) (Children scenario_tree)"
proof -
  have found: "getVisibleNodeInfoAtIndex scenario_tree 2 id_key
     = Inr (Some \<lparr>node = leaf ''c'', lowerSiblingCounts = [1, 0], path = [''a'', ''c'']\<rparr>)"
    by (simp add: getVisibleNodeInfoAtIndex_def scenario_tree_def leaf_def id_key_def
        getNodeDataAtTreeIndexOrNextIndex.simps)
  have neq: "(2::int) \<noteq> - 1" by simp
  show ?thesis
    using pseudo_root_never_emitted [OF neq, of scenario_tree id_key never_stop True "()"] found
    by simp
qed

text \<open>
  Claim C7 as stated, for every integer target index, fails at \<open>- 1\<close>: the pseudo-root
  starts at index \<open>- 1\<close>, the comparison with the target comes before any test of
  \<^verbatim>\<open>isPseudoRoot\<close>, and the pseudo-root is returned with an empty path.
\<close>

theorem pseudo_root_returned_at_minus_one:
  "getVisibleNodeInfoAtIndex scenario_tree (- 1) id_key
     = Inr (Some \<lparr>node = Node [] (Some True) (Children scenario_tree),
                   lowerSiblingCounts = [], path = []\<rparr>)"
  by (simp add: getVisibleNodeInfoAtIndex_def scenario_tree_def
      getNodeDataAtTreeIndexOrNextIndex.simps)

text \<open>
  Flatten and resolve agree on every tree in which no expanded node that is reached has a
  function with parameters as its \<^verbatim>\<open>children\<close>.
\<close>

lemma flattened_agrees_with_lookup:
  assumes "\<forall>c \<in> set T. no_expanded_lazy c"
    and "i < length (getVisibleNodeInfoFlattened T gk)"
  shows "getVisibleNodeInfoAtIndex T (int i) gk = Inr (getVisibleNodeInfoFlattened T gk ! i)"
proof -
  let ?order = "preorder_children gk True T 0 [] []"
  have i: "i < length ?order"
    using assms(2) by (simp add: getVisibleNodeInfoFlattened_preorder)
  then have ne: "T \<noteq> []" by auto
  obtain y where y: "getNodeData_children gk (int i) T 0 [] [] = Inr y"
    using getNodeData_no_fault(2)[OF assms(1)] by blast
  then have "y = seek (int i) 0 ?order"
    by (rule getNodeData_seek(2))
  then have "y = Found (info_of (?order ! i))"
    using i by (simp add: seek_def)
  then show ?thesis
    using y ne i
    by (simp add: getVisibleNodeInfoAtIndex_def getNodeData_pseudo_root
        getVisibleNodeInfoFlattened_preorder)
qed

text \<open>
  Claim C2, flatten/resolve agreement, fails on the code: \<^verbatim>\<open>walkDescendants\<close> tests
  \<^verbatim>\<open>typeof node.children !== 'function'\<close> before its loop and
  \<^verbatim>\<open>getNodeDataAtTreeIndexOrNextIndex\<close> does not. On \<open>lazy_tree\<close> the flattened array holds
  the record of \<^verbatim>\<open>e\<close> at index 2, and the lookup of index 2 raises a \<open>TypeError\<close> on the
  undefined child of the first root.
\<close>

theorem flattened_disagrees_on_lazy_children:
  "getVisibleNodeInfoFlattened lazy_tree id_key ! 2
     = Some \<lparr>node = leaf ''e'', lowerSiblingCounts = [0], path = [''e'']\<rparr>
   \<and> getVisibleNodeInfoAtIndex lazy_tree 2 id_key = Inl TypeError"
  by (simp add: getVisibleNodeInfoFlattened_preorder info_of_def getVisibleNodeInfoAtIndex_def
      lazy_tree_def leaf_def id_key_def getNodeDataAtTreeIndexOrNextIndex.simps)

section \<open>Failures of path-addressed mutation\<close>

lemma seek_before: "t < i \<Longrightarrow> seek t i infos = NextIndex (i + int (length infos))"
  by (simp add: seek_def)

lemma getNodeData_skip:
  assumes "t < ci"
    and "getNodeDataAtTreeIndexOrNextIndex gk t ic False nd ci pth lsc = Inr y"
  shows "y = NextIndex (ci + int (skipped ic nd))"
proof (cases ic)
  case True
  then have "y = seek t ci (preorder gk True nd ci pth lsc)"
    using getNodeData_seek(1)[of ic False gk t nd ci pth lsc y] assms(2) by simp
  then show ?thesis
    using assms(1) True by (simp add: seek_before length_preorder skipped_def)
next
  case False
  obtain ps e ch where nd: "nd = Node ps e ch" by (cases nd)
  show ?thesis
  proof (cases ch)
    case NoChildren
    then show ?thesis
      using assms False unfolding nd
      by (subst (asm) getNodeDataAtTreeIndexOrNextIndex.simps)
         (simp add: skipped_def expand_def)
  next
    case (Children cs)
    have "getNodeData_children gk t cs (ci + 1) (pth @ [gk nd ci]) lsc = Inr y"
      using assms False Children unfolding nd
      by (subst (asm) getNodeDataAtTreeIndexOrNextIndex.simps) (simp add: Let_def)
    then have "y = seek t (ci + 1) (preorder_children gk True cs (ci + 1) (pth @ [gk nd ci]) lsc)"
      by (rule getNodeData_seek(2))
    then show ?thesis
      using assms(1) False Children
      by (simp add: seek_before length_preorder skipped_def count_expand child_nodes_def nd)
  next
    case (LazyChildren a)
    then show ?thesis
      using assms False unfolding nd
      by (subst (asm) getNodeDataAtTreeIndexOrNextIndex.simps)
         (simp add: skipped_def expand_def split: if_splits)
  qed
qed




lemma traverse_mismatch:
  "js_index pth pathIndex \<noteq> Some (gk nd cti) \<Longrightarrow>
     changeNodeAtPath_traverse gk pth nn ic False nd cti pathIndex = Inr RESULT_MISS"
  by (subst changeNodeAtPath_traverse.simps) auto







section \<open>Structural sharing\<close>







section \<open>The sentinel string as a produced value\<close>

lemma all_nodes_Cons: "all_nodes (c # cs) = nodes_of c @ all_nodes cs"
  by (simp add: all_nodes_def)

lemma all_nodes_child_nodes: "nodes_of c = c # all_nodes (child_nodes c)"
  by (cases c) (simp add: all_nodes_def child_nodes_def split: children.splits)

lemma function_children_safe_Nil [simp]: "function_children_safe ic []"
  by (simp add: function_children_safe_def all_nodes_def)

lemma function_children_safe_Cons:
  "function_children_safe ic (c # cs) \<longleftrightarrow>
     (case children c of LazyChildren a \<Rightarrow> a = 0 \<or> (ic \<and> expanded c \<noteq> Some True) | _ \<Rightarrow> True)
     \<and> function_children_safe ic (child_nodes c) \<and> function_children_safe ic cs"
  by (simp add: function_children_safe_def all_nodes_Cons all_nodes_child_nodes)

lemma safe_no_expanded_lazy:
  "function_children_safe ic [nd] \<Longrightarrow> no_expanded_lazy nd"
proof (induction nd rule: no_expanded_lazy.induct)
  case (1 ps e ch)
  show ?case
  proof (cases ch)
    case NoChildren
    then show ?thesis by simp
  next
    case (Children cs)
    have "no_expanded_lazy c" if "c \<in> set cs" for c
    proof -
      have "function_children_safe ic cs"
        using "1.prems" Children by (simp add: function_children_safe_Cons child_nodes_def)
      then have "function_children_safe ic [c]"
        using that
        by (auto simp: function_children_safe_def all_nodes_def list_all_iff)
      then show ?thesis using "1.IH"[OF Children that] by simp
    qed
    then show ?thesis using Children by simp
  next
    case (LazyChildren a)
    then show ?thesis
      using "1.prems" by (auto simp: function_children_safe_Cons)
  qed
qed

lemma function_children_safe_member:
  "function_children_safe ic cs \<Longrightarrow> c \<in> set cs \<Longrightarrow> function_children_safe ic [c]"
  by (auto simp: function_children_safe_def all_nodes_def list_all_iff)

lemma skip_returns:
  assumes "function_children_safe ic [c]" and "t < i"
  shows "getNodeDataAtTreeIndexOrNextIndex gk t ic False c i pth lsc
           = Inr (NextIndex (i + int (skipped ic c)))"
proof -
  have "\<exists>y. getNodeDataAtTreeIndexOrNextIndex gk t ic False c i pth lsc = Inr y"
  proof (cases ic)
    case True
    then show ?thesis
      using getNodeData_no_fault(1)[OF _ safe_no_expanded_lazy[OF assms(1)]] by simp
  next
    case False
    show ?thesis
    proof (cases "children c")
      case NoChildren
      then show ?thesis
        by (subst getNodeDataAtTreeIndexOrNextIndex.simps) (simp add: Let_def)
    next
      case (Children cs)
      have "function_children_safe ic cs"
        using assms(1) Children by (simp add: function_children_safe_Cons child_nodes_def)
      then have "\<forall>c' \<in> set cs. no_expanded_lazy c'"
        using function_children_safe_member safe_no_expanded_lazy by blast
      from getNodeData_no_fault(2)[OF this]
      show ?thesis
        using Children False assms(2)
        by (subst getNodeDataAtTreeIndexOrNextIndex.simps) (simp add: Let_def)
    next
      case (LazyChildren a)
      then have "a = 0"
        using assms(1) False by (simp add: function_children_safe_Cons)
      then show ?thesis
        using LazyChildren False assms(2)
        by (subst getNodeDataAtTreeIndexOrNextIndex.simps) (simp add: Let_def)
    qed
  qed
  then show ?thesis
    using getNodeData_skip[OF assms(2)] by auto
qed






section \<open>Calls of the key function\<close>




lemma visited_upto_Nil [simp]: "visited_upto t i [] = []"
  by (simp add: visited_upto_def)

















declare changeNodeAtPath_traverse_newNode_calls.simps [simp del]

section \<open>The round trip from an index to a path and back\<close>

lemma skip_never_found:
  "t < i \<Longrightarrow> getNodeDataAtTreeIndexOrNextIndex gk t ic False c i pth lsc \<noteq> Inr (Found r)"
  using getNodeData_skip by fastforce

lemma node_at_path_key:
  "node_at_path gk ic cs i (k # ks) = Some x \<Longrightarrow> k \<in> set (level_keys gk ic cs i)"
  by (induction cs arbitrary: i) (auto split: if_splits)

lemma children_no_key_newNode_calls:
  "k \<notin> set (level_keys gk ic cs i) \<Longrightarrow> js_index pth (pathIndex + 1) = Some k
     \<Longrightarrow> function_children_safe ic cs \<Longrightarrow> 0 \<le> i
     \<Longrightarrow> changeNodeAtPath_children_newNode_calls gk pth nn ic nd earlier cs i pathIndex = []"
proof (induction cs arbitrary: earlier i)
  case Nil
  then show ?case by simp
next
  case (Cons c cs)
  have differs: "js_index pth (pathIndex + 1) \<noteq> Some (gk c i)"
    using Cons.prems(1,2) by auto
  have miss: "changeNodeAtPath_traverse gk pth nn ic False c i (pathIndex + 1) = Inr RESULT_MISS"
    using differs by (rule traverse_mismatch)
  have none: "changeNodeAtPath_traverse_newNode_calls gk pth nn ic False c i (pathIndex + 1) = []"
    using differs by (subst changeNodeAtPath_traverse_newNode_calls.simps) auto
  have safe: "function_children_safe ic [c]" "function_children_safe ic cs"
    using Cons.prems(3) by (simp_all add: function_children_safe_Cons)
  have skip: "getNodeDataAtTreeIndexOrNextIndex gk (- 1) ic False c i [] []
           = Inr (NextIndex (i + int (skipped ic c)))"
    using Cons.prems(4) by (intro skip_returns[OF safe(1)]) simp
  have "changeNodeAtPath_children_newNode_calls gk pth nn ic nd (earlier @ [c]) cs
      (i + int (skipped ic c)) pathIndex = []"
    using Cons.prems by (intro Cons.IH) (auto simp: safe)
  then show ?case
    using miss none skip by simp
qed

lemma children_newNode_calls:
  "node_at_path gk ic cs i p = Some (n, j) \<Longrightarrow> p = drop (nat (pathIndex + 1)) pth
     \<Longrightarrow> - 1 \<le> pathIndex \<Longrightarrow> 0 \<le> i
     \<Longrightarrow> unique_sibling_keys gk ic cs i \<Longrightarrow> function_children_safe ic cs
     \<Longrightarrow> changeNodeAtPath_children_newNode_calls gk pth (NewNodeFunction f) ic nd earlier cs i
           pathIndex = [(n, j)]"
proof (induction gk ic cs i p arbitrary: pathIndex nd earlier rule: node_at_path.induct)
  case (1 gk ic i pth)
  then show ?case by simp
next
  case (2 gk ic c cs i)
  then show ?case by simp
next
  case (3 gk ic c cs i k ks)
  let ?j = "i + int (skipped ic c)"
  let ?nn = "NewNodeFunction f"
  have split: "drop (nat (pathIndex + 1)) pth = k # ks" using "3.prems"(2) by simp
  then have in_range: "nat (pathIndex + 1) < length pth"
    by (cases "nat (pathIndex + 1) < length pth") auto
  then have key: "js_index pth (pathIndex + 1) = Some k"
    using split "3.prems"(3) by (simp add: js_index_def nth_via_drop)
  have "nat (pathIndex + 1 + 1) = Suc (nat (pathIndex + 1))"
    using "3.prems"(3) by simp
  then have "drop (nat (pathIndex + 1 + 1)) pth = tl (drop (nat (pathIndex + 1)) pth)"
    by (simp add: drop_Suc tl_drop)
  then have rest: "ks = drop (nat (pathIndex + 1 + 1)) pth"
    using split by simp
  have safe: "function_children_safe ic [c]" "function_children_safe ic cs"
    "function_children_safe ic (child_nodes c)"
    using "3.prems"(6) by (simp_all add: function_children_safe_Cons)
  have skip: "getNodeDataAtTreeIndexOrNextIndex gk (- 1) ic False c i [] []
           = Inr (NextIndex ?j)"
    using "3.prems"(4) by (intro skip_returns[OF safe(1)]) simp
  have fresh: "gk c i \<notin> set (level_keys gk ic cs ?j)"
    and below: "unique_sibling_keys gk ic (child_nodes c) (i + 1)"
    and beside: "unique_sibling_keys gk ic cs ?j"
    using "3.prems"(5) by simp_all
  show ?case
  proof (cases "gk c i = k")
    case True
    have own: "changeNodeAtPath_traverse_newNode_calls gk pth ?nn ic False c i (pathIndex + 1)
        = [(n, j)]"
    proof (cases "ks = []")
      case True
      then have "n = c" "j = i" using "3.prems"(1) \<open>gk c i = k\<close> by simp_all
      moreover have "int (length pth) - 1 \<le> pathIndex + 1"
        using True rest in_range by simp
      ultimately show ?thesis
        using key \<open>gk c i = k\<close>
        by (subst changeNodeAtPath_traverse_newNode_calls.simps) simp
    next
      case False
      then have at: "node_at_path gk ic (child_nodes c) (i + 1) ks = Some (n, j)"
        using "3.prems"(1) True by simp
      then obtain ds where ds: "children c = Children ds"
        by (cases "children c") (auto simp: child_nodes_def)
      have "changeNodeAtPath_children_newNode_calls gk pth ?nn ic c [] (child_nodes c) (i + 1)
          (pathIndex + 1) = [(n, j)]"
        using "3.IH"(1)[OF True False at rest _ _ below safe(3)] "3.prems"(3,4)
        by simp
      moreover have "\<not> int (length pth) - 1 \<le> pathIndex + 1"
        using False rest by simp
      ultimately show ?thesis
        using key True ds
        by (subst changeNodeAtPath_traverse_newNode_calls.simps) (simp add: child_nodes_def)
    qed
    have after: "changeNodeAtPath_children_newNode_calls gk pth ?nn ic nd (earlier @ [c]) cs ?j
        pathIndex = []"
      using fresh True key safe(2) "3.prems"(4) by (intro children_no_key_newNode_calls) auto
    show ?thesis
    proof (cases "changeNodeAtPath_traverse gk pth ?nn ic False c i (pathIndex + 1)")
      case (Inl e)
      then show ?thesis using own by simp
    next
      case (Inr v)
      then show ?thesis using own after skip by (cases v) simp_all
    qed
  next
    case False
    have differs: "js_index pth (pathIndex + 1) \<noteq> Some (gk c i)"
      using False key by auto
    have miss: "changeNodeAtPath_traverse gk pth ?nn ic False c i (pathIndex + 1) = Inr RESULT_MISS"
      using differs by (rule traverse_mismatch)
    have none: "changeNodeAtPath_traverse_newNode_calls gk pth ?nn ic False c i (pathIndex + 1) = []"
      using differs by (subst changeNodeAtPath_traverse_newNode_calls.simps) auto
    have at: "node_at_path gk ic cs ?j (k # ks) = Some (n, j)"
      using "3.prems"(1) False by simp
    have "changeNodeAtPath_children_newNode_calls gk pth ?nn ic nd (earlier @ [c]) cs ?j pathIndex
        = [(n, j)]"
      using "3.IH"(2)[OF False at _ "3.prems"(3) _ beside safe(2)] split "3.prems"(4)
      by simp
    then show ?thesis using miss none skip by simp
  qed
qed

lemma node_at_path_Nil [simp]: "node_at_path gk ic cs i [] = None"
  by (cases cs) simp_all

lemma preorder_path_leads:
  "info \<in> set (preorder gk ic nd j pth lsc) \<Longrightarrow> ic
     \<Longrightarrow> unique_sibling_keys gk ic (child_nodes nd) (j + 1)
     \<Longrightarrow> \<exists>ks. path info = pth @ gk nd j # ks
           \<and> (if ks = [] then node info = nd \<and> treeIndex info = j
               else node_at_path gk ic (child_nodes nd) (j + 1) ks
                      = Some (node info, treeIndex info))"
  "info \<in> set (preorder_children gk ic cs j pth lsc) \<Longrightarrow> ic
     \<Longrightarrow> unique_sibling_keys gk ic cs j
     \<Longrightarrow> \<exists>ks. path info = pth @ ks
           \<and> node_at_path gk ic cs j ks = Some (node info, treeIndex info)"
proof (induction gk ic nd j pth lsc and gk ic cs j pth lsc arbitrary: info and info
    rule: preorder_preorder_children.induct)
  case (1 gk ic ps e ch j pth lsc)
  let ?nd = "Node ps e ch"
  let ?own = "\<lparr>node = ?nd, lowerSiblingCounts = lsc, path = pth @ [gk ?nd j], treeIndex = j\<rparr>"
  show ?case
  proof (cases "info = ?own")
    case True
    then show ?thesis by (intro exI[of _ "[]"]) simp
  next
    case False
    then obtain cs where cs: "ch = Children cs" and opn: "e = Some True \<or> \<not> ic"
      and mem: "info \<in> set (preorder_children gk ic cs (j + 1) (pth @ [gk ?nd j]) lsc)"
      using "1.prems"(1) by (auto split: children.splits if_splits)
    have "unique_sibling_keys gk ic cs (j + 1)"
      using "1.prems"(3) cs by (simp add: child_nodes_def)
    from "1.IH"[OF cs opn mem "1.prems"(2) this]
    obtain ks where p: "path info = (pth @ [gk ?nd j]) @ ks"
      and at: "node_at_path gk ic cs (j + 1) ks = Some (node info, treeIndex info)"
      by blast
    have "ks \<noteq> []" using at by auto
    then show ?thesis
      using p at cs by (intro exI[of _ ks]) (simp add: child_nodes_def)
  qed
next
  case (2 gk ic j pth lsc)
  then show ?case by simp
next
  case (3 gk ic c cs j pth lsc)
  let ?first = "preorder gk ic c j pth (lsc @ [length cs])"
  have len: "int (length ?first) = int (skipped ic c)"
    using "3.prems"(2) by (simp add: skipped_def length_preorder)
  have fresh: "gk c j \<notin> set (level_keys gk ic cs (j + int (skipped ic c)))"
    and below: "unique_sibling_keys gk ic (child_nodes c) (j + 1)"
    and beside: "unique_sibling_keys gk ic cs (j + int (skipped ic c))"
    using "3.prems"(3) by simp_all
  show ?case
  proof (cases "info \<in> set ?first")
    case True
    from "3.IH"(1)[OF True "3.prems"(2) below]
    obtain ks where p: "path info = pth @ gk c j # ks"
      and at: "if ks = [] then node info = c \<and> treeIndex info = j
               else node_at_path gk ic (child_nodes c) (j + 1) ks = Some (node info, treeIndex info)"
      by blast
    show ?thesis
      using p at by (intro exI[of _ "gk c j # ks"]) (auto split: if_splits)
  next
    case False
    then have mem: "info \<in> set (preorder_children gk ic cs (j + int (length ?first)) pth lsc)"
      using "3.prems"(1) by simp
    have "unique_sibling_keys gk ic cs (j + int (length ?first))"
      using beside len by simp
    from "3.IH"(3)[OF mem "3.prems"(2) this]
    obtain ks where p: "path info = pth @ ks"
      and at: "node_at_path gk ic cs (j + int (skipped ic c)) ks = Some (node info, treeIndex info)"
      using len by auto
    obtain k ks' where ks: "ks = k # ks'"
      using at by (cases ks) auto
    then have "k \<in> set (level_keys gk ic cs (j + int (skipped ic c)))"
      using at node_at_path_key by fastforce
    then have "gk c j \<noteq> k" using fresh by auto
    then show ?thesis
      using p at ks by (intro exI[of _ ks]) simp
  qed
qed

text \<open>
  The round trip of claim C1 on every tree whose sibling keys are different and on which
  the index traversal meets no function-valued \<^verbatim>\<open>children\<close> with parameters: for every
  visible index the lookup returns the record that the flattened array holds there, and
  \<^verbatim>\<open>changeNodeAtPath\<close> with that record's path calls \<^verbatim>\<open>newNode\<close> once, on that record's
  node, with that index.
\<close>

lemma round_trip_on_safe_trees:
  assumes "unique_sibling_keys gk True T 0" and "function_children_safe True T"
    and "i < getVisibleNodeCount T"
  shows "\<exists>r. getVisibleNodeInfoAtIndex T (int i) gk = Inr (Some r)
           \<and> getVisibleNodeInfoFlattened T gk ! i = Some r
           \<and> changeNodeAtPath_newNode_calls T (path r) (NewNodeFunction f) gk True
               = [(node r, int i)]"
proof -
  let ?order = "preorder_children gk True T 0 [] []"
  let ?r = "info_of (?order ! i)"
  have i: "i < length ?order"
    using assms(3) by (simp add: getVisibleNodeCount_sum length_preorder)
  have flat: "getVisibleNodeInfoFlattened T gk ! i = Some ?r"
    using i by (simp add: getVisibleNodeInfoFlattened_preorder)
  have "\<forall>c \<in> set T. no_expanded_lazy c"
    using assms(2) function_children_safe_member safe_no_expanded_lazy by blast
  then have lookup: "getVisibleNodeInfoAtIndex T (int i) gk = Inr (Some ?r)"
    using flattened_agrees_with_lookup[of T i gk] i flat
    by (simp add: getVisibleNodeInfoFlattened_preorder)
  have "?order ! i \<in> set ?order" using i by simp
  from preorder_path_leads(2)[OF this _ assms(1)]
  have at: "node_at_path gk True T 0 (path (?order ! i)) = Some (node (?order ! i), treeIndex (?order ! i))"
    by auto
  have idx: "treeIndex (?order ! i) = int i"
    using treeIndex_preorder(2)[OF i] by simp
  let ?pth = "path ?r"
  have at': "node_at_path gk True T 0 ?pth = Some (node ?r, int i)"
    using at idx by (simp add: info_of_def)
  then have ne: "?pth \<noteq> []" by auto
  have loop: "changeNodeAtPath_children_newNode_calls gk ?pth (NewNodeFunction f) True
      (Node [] None (Children T)) [] T 0 (- 1) = [(node ?r, int i)]"
    using assms(1,2) at' by (intro children_newNode_calls[where p = ?pth]) auto
  have "\<not> int (length ?pth) - 1 \<le> - 1"
    using ne by (cases ?pth) auto
  then have "changeNodeAtPath_newNode_calls T ?pth (NewNodeFunction f) gk True = [(node ?r, int i)]"
    using loop unfolding changeNodeAtPath_newNode_calls_def
    by (subst changeNodeAtPath_traverse_newNode_calls.simps) simp
  then show ?thesis using lookup flat by blast
qed

text \<open>
  Claim C1, round-trip lookup, fails on the code, by the defect that claim C2 meets:
  index 2 of \<open>lazy_tree\<close> is a visible index, the lookup of it raises a \<open>TypeError\<close> on the
  undefined child of the first root, so no path is returned; and the path of that node,
  passed to \<^verbatim>\<open>changeNodeAtPath\<close>, raises the same \<open>TypeError\<close> when the first root is
  skipped, before \<^verbatim>\<open>newNode\<close> is called on anything.
\<close>

theorem round_trip_fails_on_lazy_children:
  "getVisibleNodeCount lazy_tree = 3
   \<and> getVisibleNodeInfoAtIndex lazy_tree 2 id_key = Inl TypeError
   \<and> changeNodeAtPath lazy_tree [''e''] (NewNodeFunction (\<lambda>nd i. Object nd)) id_key True
       = Inl TypeError"
  by (simp add: getVisibleNodeCount_def getVisibleNodeInfoAtIndex_def lazy_tree_def leaf_def
      id_key_def js_index_def changeNodeAtPath_def changeNodeAtPath_traverse.simps
      getNodeDataAtTreeIndexOrNextIndex.simps)

end
